theory Spec2Isabelle
  imports Main "HOL-Library.Word"
begin

unbundle bit_operations_syntax

section \<open>SM4 block cipher: data model and primitives\<close>

text \<open>
  Bytes are \<open>uint8_t\<close>, words are \<open>uint32_t\<close>. A buffer handed over as
  \<open>const uint8_t*\<close> is the list of the bytes that start at the pointer, so that
  pointer arithmetic \<open>p + k\<close> is \<open>drop k p\<close> and \<open>p[i]\<close> is \<open>p ! i\<close>. The
  callers guarantee 16 readable bytes for a block and for a key; the theorems carry that
  as a length hypothesis.
\<close>

type_synonym byte = "8 word"
type_synonym word32 = "32 word"
type_synonym state4 = "word32 \<times> word32 \<times> word32 \<times> word32"

text \<open>
  Modelled from the spec: the table \<open>SBOX\<close> is declared in \<open>sm4.h\<close> and defined in
  a translation unit that is not among the sources. Spec 4.1 calls it the fixed 256-entry
  substitution table of the SM4 cipher; the values are those of the SM4 standard.
\<close>

definition SBOX :: "byte list" where
  "SBOX = [
   0xd6, 0x90, 0xe9, 0xfe, 0xcc, 0xe1, 0x3d, 0xb7, 0x16, 0xb6, 0x14, 0xc2, 0x28, 0xfb, 0x2c, 0x05,
   0x2b, 0x67, 0x9a, 0x76, 0x2a, 0xbe, 0x04, 0xc3, 0xaa, 0x44, 0x13, 0x26, 0x49, 0x86, 0x06, 0x99,
   0x9c, 0x42, 0x50, 0xf4, 0x91, 0xef, 0x98, 0x7a, 0x33, 0x54, 0x0b, 0x43, 0xed, 0xcf, 0xac, 0x62,
   0xe4, 0xb3, 0x1c, 0xa9, 0xc9, 0x08, 0xe8, 0x95, 0x80, 0xdf, 0x94, 0xfa, 0x75, 0x8f, 0x3f, 0xa6,
   0x47, 0x07, 0xa7, 0xfc, 0xf3, 0x73, 0x17, 0xba, 0x83, 0x59, 0x3c, 0x19, 0xe6, 0x85, 0x4f, 0xa8,
   0x68, 0x6b, 0x81, 0xb2, 0x71, 0x64, 0xda, 0x8b, 0xf8, 0xeb, 0x0f, 0x4b, 0x70, 0x56, 0x9d, 0x35,
   0x1e, 0x24, 0x0e, 0x5e, 0x63, 0x58, 0xd1, 0xa2, 0x25, 0x22, 0x7c, 0x3b, 0x01, 0x21, 0x78, 0x87,
   0xd4, 0x00, 0x46, 0x57, 0x9f, 0xd3, 0x27, 0x52, 0x4c, 0x36, 0x02, 0xe7, 0xa0, 0xc4, 0xc8, 0x9e,
   0xea, 0xbf, 0x8a, 0xd2, 0x40, 0xc7, 0x38, 0xb5, 0xa3, 0xf7, 0xf2, 0xce, 0xf9, 0x61, 0x15, 0xa1,
   0xe0, 0xae, 0x5d, 0xa4, 0x9b, 0x34, 0x1a, 0x55, 0xad, 0x93, 0x32, 0x30, 0xf5, 0x8c, 0xb1, 0xe3,
   0x1d, 0xf6, 0xe2, 0x2e, 0x82, 0x66, 0xca, 0x60, 0xc0, 0x29, 0x23, 0xab, 0x0d, 0x53, 0x4e, 0x6f,
   0xd5, 0xdb, 0x37, 0x45, 0xde, 0xfd, 0x8e, 0x2f, 0x03, 0xff, 0x6a, 0x72, 0x6d, 0x6c, 0x5b, 0x51,
   0x8d, 0x1b, 0xaf, 0x92, 0xbb, 0xdd, 0xbc, 0x7f, 0x11, 0xd9, 0x5c, 0x41, 0x1f, 0x10, 0x5a, 0xd8,
   0x0a, 0xc1, 0x31, 0x88, 0xa5, 0xcd, 0x7b, 0xbd, 0x2d, 0x74, 0xd0, 0x12, 0xb8, 0xe5, 0xb4, 0xb0,
   0x89, 0x69, 0x97, 0x4a, 0x0c, 0x96, 0x77, 0x7e, 0x65, 0xb9, 0xf1, 0x09, 0xc5, 0x6e, 0xc6, 0x84,
   0x18, 0xf0, 0x7d, 0xec, 0x3a, 0xdc, 0x4d, 0x20, 0x79, 0xee, 0x5f, 0x3e, 0xd7, 0xcb, 0x39, 0x48]"

text \<open>
  Modelled from the spec: the system parameter \<open>FK\<close>, declared in \<open>sm4.h\<close>, defined
  outside the sources. Spec 4.2: the fixed 4-word system parameter of the key schedule;
  the values are those of the SM4 standard.
\<close>

definition FK :: "word32 list" where
  "FK = [0xa3b1bac6, 0x56aa3350, 0x677d9197, 0xb27022dc]"

text \<open>
  Modelled from the spec: the round constants \<open>CK\<close>, declared in \<open>sm4.h\<close>, defined
  outside the sources. Spec 4.2: a fixed 32-entry constant table; the values are those of
  the SM4 standard.
\<close>

definition CK :: "word32 list" where
  "CK = [
   0x00070e15, 0x1c232a31, 0x383f464d, 0x545b6269,
   0x70777e85, 0x8c939aa1, 0xa8afb6bd, 0xc4cbd2d9,
   0xe0e7eef5, 0xfc030a11, 0x181f262d, 0x343b4249,
   0x50575e65, 0x6c737a81, 0x888f969d, 0xa4abb2b9,
   0xc0c7ced5, 0xdce3eaf1, 0xf8ff060d, 0x141b2229,
   0x30373e45, 0x4c535a61, 0x686f767d, 0x848b9299,
   0xa0a7aeb5, 0xbcc3cad1, 0xd8dfe6ed, 0xf4fb0209,
   0x10171e25, 0x2c333a41, 0x484f565d, 0x646b7279]"

text \<open>
  Modelled from the spec: \<open>sbox\<close> is declared in \<open>sm4.h\<close>, its body is not among the
  sources. Spec 4.1: \<open>substitute\<close> is the lookup in the substitution table.
\<close>

definition sbox :: "byte \<Rightarrow> byte" where
  "sbox input = SBOX ! unat input"

text \<open>
  Modelled from the spec: \<open>leftRotate\<close> is declared in \<open>sm4.h\<close>, its body is not among
  the sources. Spec 4.1: a circular left shift of a 32-bit value by \<open>bits\<close> in
  \<open>[0, 32)\<close>, the identity for \<open>bits = 0\<close>.
\<close>

definition leftRotate :: "word32 \<Rightarrow> nat \<Rightarrow> word32" where
  "leftRotate v bits = word_rotl bits v"

text \<open>
  Modelled from the spec: \<open>linearTransform\<close> is declared in \<open>sm4.h\<close>, its body is not
  among the sources. Spec 4.1:
  \<open>word ^ rotl(word,2) ^ rotl(word,10) ^ rotl(word,18) ^ rotl(word,24)\<close>.
\<close>

definition linearTransform :: "word32 \<Rightarrow> word32" where
  "linearTransform input =
     input XOR leftRotate input 2 XOR leftRotate input 10 XOR
     leftRotate input 18 XOR leftRotate input 24"

text \<open>
  Modelled from the spec: \<open>linearTransformPrime\<close> is declared in \<open>sm4.h\<close>, its body is
  not among the sources. Spec 4.1: \<open>word ^ rotl(word,13) ^ rotl(word,23)\<close>.
\<close>

definition linearTransformPrime :: "word32 \<Rightarrow> word32" where
  "linearTransformPrime input =
     input XOR leftRotate input 13 XOR leftRotate input 23"

subsection \<open>Big-endian load and store of the four state words\<close>

text \<open>
  \<open>(p[4*i] << 24) | (p[4*i+1] << 16) | (p[4*i+2] << 8) | p[4*i+3]\<close>, and the four
  stores \<open>out[4*i+k] = (uint8_t)(Y[i] >> (24 - 8*k))\<close>.
\<close>

definition load32 :: "byte list \<Rightarrow> nat \<Rightarrow> word32" where
  "load32 p i =
     push_bit 24 (ucast (p ! (4 * i))) OR push_bit 16 (ucast (p ! (4 * i + 1))) OR
     push_bit 8 (ucast (p ! (4 * i + 2))) OR ucast (p ! (4 * i + 3))"

definition store32 :: "word32 \<Rightarrow> byte list" where
  "store32 y = [ucast (drop_bit 24 y), ucast (drop_bit 16 y), ucast (drop_bit 8 y), ucast y]"

definition loadBlock :: "byte list \<Rightarrow> state4" where
  "loadBlock p = (load32 p 0, load32 p 1, load32 p 2, load32 p 3)"

text \<open>The reversal \<open>Y = {X[3], X[2], X[1], X[0]}\<close> followed by the stores.\<close>

definition storeReversed :: "state4 \<Rightarrow> byte list" where
  "storeReversed X =
     (case X of (x0, x1, x2, x3) \<Rightarrow> store32 x3 @ store32 x2 @ store32 x1 @ store32 x0)"

subsection \<open>Byte substitution through the memory view of a word\<close>

text \<open>
  \<open>uint8_t* bytes = reinterpret_cast<uint8_t*>(&temp); bytes[k] = sbox(bytes[k])\<close>
  for \<open>k = 0..3\<close>: every byte of the word is replaced in place by its S-box image
  (\<open>bytes[0]\<close> is the low byte on x86-64; the result does not depend on the byte order).
\<close>

definition sboxBytes :: "word32 \<Rightarrow> word32" where
  "sboxBytes temp =
     ucast (sbox (ucast temp)) OR
     push_bit 8 (ucast (sbox (ucast (drop_bit 8 temp)))) OR
     push_bit 16 (ucast (sbox (ucast (drop_bit 16 temp)))) OR
     push_bit 24 (ucast (sbox (ucast (drop_bit 24 temp))))"

subsection \<open>Key schedule\<close>

text \<open>
  \<open>keyExpansion\<close> has the same body in \<open>TTable\<close>, \<open>AESNI\<close> and \<open>ModernISA\<close>. The
  loop over \<open>i = 0..31\<close> stores \<open>roundKeys[i]\<close> and shifts the window \<open>K\<close>; the
  model returns the 32 stored words in order.
\<close>

fun expandRounds :: "nat list \<Rightarrow> state4 \<Rightarrow> word32 list" where
  "expandRounds [] K = []"
| "expandRounds (i # rest) (k0, k1, k2, k3) =
     (let temp = linearTransformPrime (sboxBytes (k1 XOR k2 XOR k3 XOR CK ! i));
          rk = k0 XOR temp
      in rk # expandRounds rest (k1, k2, k3, rk))"

definition keyExpansion :: "byte list \<Rightarrow> word32 list" where
  "keyExpansion key =
     expandRounds [0..<32]
       (load32 key 0 XOR FK ! 0, load32 key 1 XOR FK ! 1,
        load32 key 2 XOR FK ! 2, load32 key 3 XOR FK ! 3)"

subsection \<open>The 32 rounds\<close>

text \<open>
  One round with round function \<open>F\<close> and round key \<open>k\<close>:
  \<open>temp = F(X[1] ^ X[2] ^ X[3] ^ k); newX = X[0] ^ temp\<close>, then the shift of the window.
  Every backend runs this loop; they differ in \<open>F\<close> only. Encryption visits the round
  keys \<open>0..31\<close>, decryption \<open>31..0\<close>. An instance of a backend class holds nothing but
  its \<open>roundKeys\<close> array, which is the argument \<open>rk\<close>.
\<close>

definition roundStep :: "(word32 \<Rightarrow> word32) \<Rightarrow> word32 \<Rightarrow> state4 \<Rightarrow> state4" where
  "roundStep F k X =
     (case X of (x0, x1, x2, x3) \<Rightarrow> (x1, x2, x3, x0 XOR F (x1 XOR x2 XOR x3 XOR k)))"

definition rounds :: "(word32 \<Rightarrow> word32) \<Rightarrow> word32 list \<Rightarrow> nat list \<Rightarrow> state4 \<Rightarrow> state4" where
  "rounds F rk order X = fold (\<lambda>i. roundStep F (rk ! i)) order X"

definition cryptBlock :: "(word32 \<Rightarrow> word32) \<Rightarrow> word32 list \<Rightarrow> nat list \<Rightarrow> byte list \<Rightarrow> byte list" where
  "cryptBlock F rk order p = storeReversed (rounds F rk order (loadBlock p))"

definition encOrder :: "nat list" where
  "encOrder = [0..<32]"

definition decOrder :: "nat list" where
  "decOrder = rev [0..<32]"

section \<open>Backend TTable\<close>

text \<open>
  \<open>initializeTables\<close>, run by the constructor: for \<open>i = 0..255\<close>,
  \<open>temp = sbox(i)\<close> and \<open>Tk[i] = linearTransform(temp << (24 - 8*k))\<close>.
\<close>

definition T0 :: "word32 list" where
  "T0 = map (\<lambda>i. linearTransform (push_bit 24 (ucast (sbox (of_nat i))))) [0..<256]"

definition T1 :: "word32 list" where
  "T1 = map (\<lambda>i. linearTransform (push_bit 16 (ucast (sbox (of_nat i))))) [0..<256]"

definition T2 :: "word32 list" where
  "T2 = map (\<lambda>i. linearTransform (push_bit 8 (ucast (sbox (of_nat i))))) [0..<256]"

definition T3 :: "word32 list" where
  "T3 = map (\<lambda>i. linearTransform (ucast (sbox (of_nat i)))) [0..<256]"

definition TTable_feistelFunction :: "word32 \<Rightarrow> word32" where
  "TTable_feistelFunction input =
     (let b0 = (ucast (drop_bit 24 input) :: byte);
          b1 = (ucast (drop_bit 16 input) :: byte);
          b2 = (ucast (drop_bit 8 input) :: byte);
          b3 = (ucast input :: byte)
      in T0 ! unat b0 XOR T1 ! unat b1 XOR T2 ! unat b2 XOR T3 ! unat b3)"

definition TTable_setKey :: "byte list \<Rightarrow> word32 list" where
  "TTable_setKey key = keyExpansion key"

definition TTable_encrypt :: "word32 list \<Rightarrow> byte list \<Rightarrow> byte list" where
  "TTable_encrypt rk plaintext = cryptBlock TTable_feistelFunction rk encOrder plaintext"

definition TTable_decrypt :: "word32 list \<Rightarrow> byte list \<Rightarrow> byte list" where
  "TTable_decrypt rk ciphertext = cryptBlock TTable_feistelFunction rk decOrder ciphertext"

text \<open>\<open>clear\<close>: \<open>std::fill(roundKeys.begin(), roundKeys.end(), 0)\<close>.\<close>

definition TTable_clear :: "word32 list \<Rightarrow> word32 list" where
  "TTable_clear rk = map (\<lambda>_. 0) rk"

section \<open>Backend AESNI\<close>

text \<open>
  The round body substitutes the four bytes of \<open>temp\<close> in place and calls
  \<open>linearTransform\<close>.
\<close>

definition AESNI_roundFunction :: "word32 \<Rightarrow> word32" where
  "AESNI_roundFunction temp = linearTransform (sboxBytes temp)"

definition AESNI_setKey :: "byte list \<Rightarrow> word32 list" where
  "AESNI_setKey key = keyExpansion key"

definition AESNI_encrypt :: "word32 list \<Rightarrow> byte list \<Rightarrow> byte list" where
  "AESNI_encrypt rk plaintext = cryptBlock AESNI_roundFunction rk encOrder plaintext"

definition AESNI_decrypt :: "word32 list \<Rightarrow> byte list \<Rightarrow> byte list" where
  "AESNI_decrypt rk ciphertext = cryptBlock AESNI_roundFunction rk decOrder ciphertext"

section \<open>Backend ModernISA\<close>

text \<open>
  \<open>feistelFunctionAVX\<close> takes lane 0 of its argument, looks up the four bytes
  (\<open>b0\<close> from the low byte), reassembles \<open>b0 | (b1 << 8) | (b2 << 16) | (b3 << 24)\<close>
  and applies the rotations written out as shifts; \<open>_mm_set1_epi32\<close> and
  \<open>_mm_extract_epi32(_, 0)\<close> around the call cancel. The bytes are promoted to
  \<open>int\<close> for the shifts and the result is converted to \<open>uint32_t\<close>: the 32 bits
  below.
\<close>

definition feistelFunctionAVX :: "word32 \<Rightarrow> word32" where
  "feistelFunctionAVX scalar_input =
     (let b0 = sbox (ucast (scalar_input AND 0xFF));
          b1 = sbox (ucast (drop_bit 8 scalar_input AND 0xFF));
          b2 = sbox (ucast (drop_bit 16 scalar_input AND 0xFF));
          b3 = sbox (ucast (drop_bit 24 scalar_input AND 0xFF));
          sbox_result = (ucast b0 OR push_bit 8 (ucast b1) OR push_bit 16 (ucast b2) OR
                         push_bit 24 (ucast b3) :: word32)
      in sbox_result XOR
         (push_bit 2 sbox_result OR drop_bit 30 sbox_result) XOR
         (push_bit 10 sbox_result OR drop_bit 22 sbox_result) XOR
         (push_bit 18 sbox_result OR drop_bit 14 sbox_result) XOR
         (push_bit 24 sbox_result OR drop_bit 8 sbox_result))"

text \<open>
  The round body of \<open>ModernISA::encrypt\<close> and \<open>decrypt\<close> branches on the static
  capability flag \<open>avxSupported\<close>, which the constructor sets from \<open>cpuid\<close>.
\<close>

definition ModernISA_roundFunction :: "bool \<Rightarrow> word32 \<Rightarrow> word32" where
  "ModernISA_roundFunction avxSupported temp =
     (if avxSupported then feistelFunctionAVX temp else linearTransform (sboxBytes temp))"

definition ModernISA_setKey :: "byte list \<Rightarrow> word32 list" where
  "ModernISA_setKey key = keyExpansion key"

definition ModernISA_encrypt :: "bool \<Rightarrow> word32 list \<Rightarrow> byte list \<Rightarrow> byte list" where
  "ModernISA_encrypt avxSupported rk plaintext =
     cryptBlock (ModernISA_roundFunction avxSupported) rk encOrder plaintext"

definition ModernISA_decrypt :: "bool \<Rightarrow> word32 list \<Rightarrow> byte list \<Rightarrow> byte list" where
  "ModernISA_decrypt avxSupported rk ciphertext =
     cryptBlock (ModernISA_roundFunction avxSupported) rk decOrder ciphertext"

subsection \<open>Batch interface\<close>

text \<open>
  An output buffer is the list of its bytes before the call; the functions that write
  through a \<open>uint8_t*\<close> take it and return it updated. \<open>storeAt out off bs\<close> is the
  buffer after the stores \<open>out[off + j] = bs[j]\<close>, \<open>j = 0 .. length bs - 1\<close>.
\<close>

definition storeAt :: "byte list \<Rightarrow> nat \<Rightarrow> byte list \<Rightarrow> byte list" where
  "storeAt out off bs = take off out @ bs @ drop (off + length bs) out"

text \<open>
  The parallel path of \<open>encryptBlocks\<close> and \<open>decryptBlocks\<close>. For a group that
  starts at block \<open>b\<close>, the four blocks are loaded into \<open>X[16]\<close> (block \<open>k\<close> at
  \<open>X[4*k .. 4*k+3]\<close>), each of the 32 rounds advances the four blocks one after the
  other with the same round key, and the four results are stored at
  \<open>dst = out + (b + block) * 16\<close>. The round body is written inline in the source, with
  the text of \<open>feistelFunctionAVX\<close>.
\<close>

definition loadGroup :: "byte list \<Rightarrow> nat \<Rightarrow> state4 list" where
  "loadGroup p b = map (\<lambda>block. loadBlock (drop ((b + block) * 16) p)) [0..<4]"

definition lockstepRounds :: "word32 list \<Rightarrow> nat list \<Rightarrow> state4 list \<Rightarrow> state4 list" where
  "lockstepRounds rk order Xs =
     fold (\<lambda>round. map (roundStep feistelFunctionAVX (rk ! round))) order Xs"

definition storeGroup :: "state4 list \<Rightarrow> nat \<Rightarrow> byte list \<Rightarrow> byte list" where
  "storeGroup Xs b out =
     fold (\<lambda>block o'. storeAt o' ((b + block) * 16) (storeReversed (Xs ! block))) [0..<4] out"

definition cryptGroups :: "word32 list \<Rightarrow> nat list \<Rightarrow> byte list \<Rightarrow> nat \<Rightarrow> byte list \<Rightarrow> byte list" where
  "cryptGroups rk order p blockCount out =
     fold (\<lambda>g o'. storeGroup (lockstepRounds rk order (loadGroup p (4 * g))) (4 * g) o')
       [0..<blockCount div 4] out"

text \<open>
  \<open>encryptBlocks(plaintext, ciphertext, blockCount)\<close>: the groups of four when the flag
  is set and there are at least four blocks, then the \<open>blockCount % 4\<close> remaining blocks
  through \<open>encrypt\<close>; otherwise every block through \<open>encrypt\<close>.
\<close>

definition ModernISA_encryptBlocks ::
    "bool \<Rightarrow> word32 list \<Rightarrow> byte list \<Rightarrow> byte list \<Rightarrow> nat \<Rightarrow> byte list" where
  "ModernISA_encryptBlocks avxSupported rk plaintext ciphertext blockCount =
     (if avxSupported \<and> blockCount \<ge> 4 then
        (let out1 = cryptGroups rk encOrder plaintext blockCount ciphertext;
             remaining = blockCount mod 4
         in fold (\<lambda>i o'. storeAt o' ((blockCount - remaining + i) * 16)
                    (ModernISA_encrypt avxSupported rk
                       (drop ((blockCount - remaining + i) * 16) plaintext)))
              [0..<remaining] out1)
      else
        fold (\<lambda>i o'. storeAt o' (i * 16)
                (ModernISA_encrypt avxSupported rk (drop (i * 16) plaintext)))
          [0..<blockCount] ciphertext)"

definition ModernISA_decryptBlocks ::
    "bool \<Rightarrow> word32 list \<Rightarrow> byte list \<Rightarrow> byte list \<Rightarrow> nat \<Rightarrow> byte list" where
  "ModernISA_decryptBlocks avxSupported rk ciphertext plaintext blockCount =
     (if avxSupported \<and> blockCount \<ge> 4 then
        (let out1 = cryptGroups rk decOrder ciphertext blockCount plaintext;
             remaining = blockCount mod 4
         in fold (\<lambda>i o'. storeAt o' ((blockCount - remaining + i) * 16)
                    (ModernISA_decrypt avxSupported rk
                       (drop ((blockCount - remaining + i) * 16) ciphertext)))
              [0..<remaining] out1)
      else
        fold (\<lambda>i o'. storeAt o' (i * 16)
                (ModernISA_decrypt avxSupported rk (drop (i * 16) ciphertext)))
          [0..<blockCount] plaintext)"

section \<open>SM4-GCM\<close>

text \<open>
  The object: the \<open>TTable\<close> cipher instance \<open>sm4\<close> (its round keys), the subkey
  \<open>H\<close> as two 64-bit words, and the vectors \<open>iv\<close> and \<open>aad\<close>.
\<close>

record SM4_GCM =
  sm4 :: "word32 list"
  H :: "64 word list"
  iv :: "byte list"
  aad :: "byte list"

text \<open>\<open>clear\<close> fills the four members with zero; \<open>std::fill\<close> keeps every length.\<close>

definition SM4_GCM_clear :: "SM4_GCM \<Rightarrow> SM4_GCM" where
  "SM4_GCM_clear st =
     st\<lparr>sm4 := TTable_clear (sm4 st), H := map (\<lambda>_. 0) (H st),
        iv := map (\<lambda>_. 0) (iv st), aad := map (\<lambda>_. 0) (aad st)\<rparr>"

text \<open>
  \<open>generateSubkey\<close>: \<open>h_bytes = E(0^128)\<close>, then for \<open>i = 0..7\<close>
  \<open>H[0] = (H[0] << 8) | h_bytes[i]\<close> and \<open>H[1] = (H[1] << 8) | h_bytes[i + 8]\<close>.
\<close>

definition pack64 :: "byte list \<Rightarrow> nat \<Rightarrow> 64 word" where
  "pack64 h off = fold (\<lambda>i acc. push_bit 8 acc OR ucast (h ! (i + off))) [0..<8] 0"

definition generateSubkey :: "SM4_GCM \<Rightarrow> SM4_GCM" where
  "generateSubkey st =
     (let h_bytes = TTable_encrypt (sm4 st) (replicate 16 0)
      in st\<lparr>H := [pack64 h_bytes 0, pack64 h_bytes 8]\<rparr>)"

definition SM4_GCM_setKey :: "byte list \<Rightarrow> SM4_GCM \<Rightarrow> SM4_GCM" where
  "SM4_GCM_setKey key st = generateSubkey (st\<lparr>sm4 := TTable_setKey key\<rparr>)"

text \<open>
  \<open>setIV(iv_data, ivLen)\<close>: \<open>iv.clear(); iv.resize(ivLen); std::copy(...)\<close>; the pair
  of pointer and length is the list \<open>iv_data\<close>. \<open>setAAD\<close> likewise.
\<close>

definition SM4_GCM_setIV :: "byte list \<Rightarrow> SM4_GCM \<Rightarrow> SM4_GCM" where
  "SM4_GCM_setIV iv_data st = st\<lparr>iv := iv_data\<rparr>"

definition SM4_GCM_setAAD :: "byte list \<Rightarrow> SM4_GCM \<Rightarrow> SM4_GCM" where
  "SM4_GCM_setAAD aad_data st = st\<lparr>aad := aad_data\<rparr>"

subsection \<open>Multiplication in GF(2^128)\<close>

text \<open>
  The inner loop \<open>v = v >> 1\<close> of \<open>gfmul\<close>, from byte 0 to byte 15:
  \<open>new_carry = v[j] & 1; v[j] = (v[j] >> 1) | (carry << 7); carry = new_carry\<close>.
  It returns the shifted bytes and the carry that leaves the last byte.
\<close>

fun shiftRightCarry :: "byte \<Rightarrow> byte list \<Rightarrow> byte list \<times> byte" where
  "shiftRightCarry carry [] = ([], carry)"
| "shiftRightCarry carry (b # bs) =
     (let new_carry = b AND 1;
          b' = drop_bit 1 b OR push_bit 7 carry;
          (bs', c) = shiftRightCarry new_carry bs
      in (b' # bs', c))"

definition xorBytes :: "byte list \<Rightarrow> byte list \<Rightarrow> byte list" where
  "xorBytes a b = map2 (XOR) a b"

text \<open>
  One iteration \<open>i\<close> of the outer loop on the pair \<open>(z, v)\<close>: the test of bit
  \<open>7 - i % 8\<close> of \<open>x[i / 8]\<close>, the shift, and \<open>v[0] ^= 0xE1\<close> when the carry is set.
\<close>

definition gfmulStep :: "byte list \<Rightarrow> nat \<Rightarrow> byte list \<times> byte list \<Rightarrow> byte list \<times> byte list" where
  "gfmulStep x i zv =
     (case zv of (z, v) \<Rightarrow>
        (let byte_idx = i div 8;
             bit_idx = 7 - i mod 8;
             z' = (if x ! byte_idx AND push_bit bit_idx 1 \<noteq> 0 then xorBytes z v else z);
             (v', carry) = shiftRightCarry 0 v;
             v'' = (if carry \<noteq> 0 then v'[0 := v' ! 0 XOR 0xE1] else v')
         in (z', v'')))"

definition gfmul :: "byte list \<Rightarrow> byte list \<Rightarrow> byte list" where
  "gfmul x y = fst (fold (gfmulStep x) [0..<128] (replicate 16 0, take 16 y))"

subsection \<open>GHASH\<close>

text \<open>
  \<open>h_bytes[i] = (uint8_t)(H[0] >> (56 - 8*i))\<close>, \<open>h_bytes[i+8]\<close> from \<open>H[1]\<close>; then
  \<open>y = (y ^ X_i) * H\<close> over the full blocks, and once more over the zero-padded rest.
\<close>

definition unpack64 :: "64 word \<Rightarrow> byte list" where
  "unpack64 w = map (\<lambda>i. ucast (drop_bit (56 - 8 * i) w)) [0..<8]"

definition ghash :: "SM4_GCM \<Rightarrow> byte list \<Rightarrow> byte list" where
  "ghash st data =
     (let h_bytes = unpack64 (H st ! 0) @ unpack64 (H st ! 1);
          len = length data;
          full_blocks = len div 16;
          y = fold (\<lambda>i y. gfmul (xorBytes y (take 16 (drop (i * 16) data))) h_bytes)
                [0..<full_blocks] (replicate 16 0);
          remaining = len mod 16
      in if remaining > 0 then
           (let padded_block = drop (full_blocks * 16) data @ replicate (16 - remaining) 0
            in gfmul (xorBytes y padded_block) h_bytes)
         else y)"

subsection \<open>Counter mode\<close>

text \<open>\<open>incrementCounter\<close>: the last four bytes as a big-endian 32-bit value, plus one.\<close>

definition incrementCounter :: "byte list \<Rightarrow> byte list" where
  "incrementCounter counter =
     (let low = load32 counter 3 + 1
      in counter[12 := ucast (drop_bit 24 low), 13 := ucast (drop_bit 16 low),
                 14 := ucast (drop_bit 8 low), 15 := ucast low])"

text \<open>
  The counter-mode loops, the same in \<open>encrypt\<close> and \<open>decrypt\<close>: \<open>counter\<close> starts at
  \<open>j0\<close>; for every full block the counter is incremented, encrypted, and the 16 bytes
  \<open>out[i*16 + j] = inp[i*16 + j] ^ keystream[j]\<close> are stored; the remaining bytes
  take the first \<open>remaining\<close> bytes of one more keystream block.
\<close>

definition ctrFullBlocks ::
    "word32 list \<Rightarrow> byte list \<Rightarrow> nat \<Rightarrow> byte list \<times> byte list \<Rightarrow> byte list \<times> byte list" where
  "ctrFullBlocks rk inp full_blocks start =
     fold (\<lambda>i (counter, out).
             (let counter' = incrementCounter counter;
                  keystream = TTable_encrypt rk counter'
              in (counter', storeAt out (i * 16) (xorBytes (take 16 (drop (i * 16) inp)) keystream))))
       [0..<full_blocks] start"

definition ctrCrypt :: "word32 list \<Rightarrow> byte list \<Rightarrow> byte list \<Rightarrow> byte list \<Rightarrow> byte list" where
  "ctrCrypt rk j0 inp out =
     (let full_blocks = length inp div 16;
          remaining = length inp mod 16;
          (counter, out1) = ctrFullBlocks rk inp full_blocks (j0, out)
      in if remaining > 0 then
           (let counter' = incrementCounter counter;
                keystream = TTable_encrypt rk counter'
            in storeAt out1 (full_blocks * 16)
                 (xorBytes (drop (full_blocks * 16) inp) (take remaining keystream)))
         else out1)"

subsection \<open>Authenticated encryption and decryption\<close>

text \<open>
  \<open>j0\<close>: a 12-byte IV followed by \<open>00 00 00 01\<close>, or \<open>ghash\<close> of the IV.
\<close>

definition initialCounter :: "SM4_GCM \<Rightarrow> byte list" where
  "initialCounter st =
     (if length (iv st) = 12 then (iv st @ replicate 4 0)[15 := 1]
      else ghash st (iv st))"

text \<open>
  \<open>auth_data\<close>: the AAD, the \<open>len\<close> ciphertext bytes, and the two bit lengths
  \<open>aad.size() * 8\<close> and \<open>len * 8\<close> (computed in 64 bits) as big-endian 64-bit values.
\<close>

definition authData :: "SM4_GCM \<Rightarrow> byte list \<Rightarrow> byte list" where
  "authData st ct =
     aad st @ ct @ unpack64 (of_nat (length (aad st)) * 8) @ unpack64 (of_nat (length ct) * 8)"

text \<open>
  \<open>encrypt(plaintext, ptLen, ciphertext, tag, tagLen)\<close>. The plaintext is the list of its
  \<open>ptLen\<close> bytes; \<open>ciphertext\<close> and \<open>tag\<close> are the output buffers. The result is the
  object after the call (no member is assigned), the returned \<open>bool\<close>, and the two
  buffers after the call. \<open>return false\<close> happens before any store.
\<close>

definition SM4_GCM_encrypt ::
    "SM4_GCM \<Rightarrow> byte list \<Rightarrow> byte list \<Rightarrow> byte list \<Rightarrow> nat
      \<Rightarrow> SM4_GCM \<times> bool \<times> byte list \<times> byte list" where
  "SM4_GCM_encrypt st plaintext ciphertext tag tagLen =
     (if iv st = [] then (st, False, ciphertext, tag)
      else
        (let ptLen = length plaintext;
             j0 = initialCounter st;
             tag_mask = TTable_encrypt (sm4 st) j0;
             ciphertext' = ctrCrypt (sm4 st) j0 plaintext ciphertext;
             auth_tag = ghash st (authData st (take ptLen ciphertext'));
             actual_tag_len = min tagLen 16;
             tag' = storeAt tag 0 (take actual_tag_len (xorBytes auth_tag tag_mask))
         in (st, True, ciphertext', tag')))"

text \<open>
  \<open>decrypt(ciphertext, ctLen, tag, tagLen, plaintext)\<close>. The expected tag is computed
  from the given ciphertext and compared with \<open>tag[i]\<close> for \<open>i < min(tagLen, 16)\<close>; the
  first difference returns \<open>false\<close>. Only then the counter-mode loops store into
  \<open>plaintext\<close>.
\<close>

definition expectedTag :: "SM4_GCM \<Rightarrow> byte list \<Rightarrow> byte list" where
  "expectedTag st ct =
     xorBytes (ghash st (authData st ct)) (TTable_encrypt (sm4 st) (initialCounter st))"

definition tagMismatch :: "byte list \<Rightarrow> byte list \<Rightarrow> nat \<Rightarrow> bool" where
  "tagMismatch expected_tag tag actual_tag_len =
     list_ex (\<lambda>i. expected_tag ! i \<noteq> tag ! i) [0..<actual_tag_len]"

definition SM4_GCM_decrypt ::
    "SM4_GCM \<Rightarrow> byte list \<Rightarrow> byte list \<Rightarrow> nat \<Rightarrow> byte list
      \<Rightarrow> SM4_GCM \<times> bool \<times> byte list" where
  "SM4_GCM_decrypt st ciphertext tag tagLen plaintext =
     (if iv st = [] then (st, False, plaintext)
      else
        (let j0 = initialCounter st;
             expected_tag = expectedTag st ciphertext;
             actual_tag_len = min tagLen 16
         in if tagMismatch expected_tag tag actual_tag_len then (st, False, plaintext)
            else (st, True, ctrCrypt (sm4 st) j0 ciphertext plaintext)))"

section \<open>Auxiliary notions used in the proofs\<close>

text \<open>The word order reversal that precedes the stores of a block.\<close>

definition reverse4 :: "state4 \<Rightarrow> state4" where
  "reverse4 X = (case X of (x0, x1, x2, x3) \<Rightarrow> (x3, x2, x1, x0))"

text \<open>The vectors of \<open>test_sm4.cpp\<close>.\<close>

definition test_key :: "byte list" where
  "test_key = [0x01, 0x23, 0x45, 0x67, 0x89, 0xab, 0xcd, 0xef,
               0xfe, 0xdc, 0xba, 0x98, 0x76, 0x54, 0x32, 0x10]"

definition test_plaintext :: "byte list" where
  "test_plaintext = [0x01, 0x23, 0x45, 0x67, 0x89, 0xab, 0xcd, 0xef,
                     0xfe, 0xdc, 0xba, 0x98, 0x76, 0x54, 0x32, 0x10]"

definition expected_ciphertext :: "byte list" where
  "expected_ciphertext = [0x68, 0x1e, 0xdf, 0x34, 0xd2, 0x06, 0x96, 0x5e,
                          0x86, 0xb3, 0xe9, 0x4f, 0x53, 0x6e, 0x42, 0x46]"

text \<open>The round keys of \<open>test_key\<close>, as \<open>keyExpansion\<close> computes them.\<close>

definition test_roundKeys :: "word32 list" where
  "test_roundKeys =
    [0xf12186f9, 0x41662b61, 0x5a6ab19a, 0x7ba92077,
     0x367360f4, 0x776a0c61, 0xb6bb89b3, 0x24763151,
     0xa520307c, 0xb7584dbd, 0xc30753ed, 0x7ee55b57,
     0x6988608c, 0x30d895b7, 0x44ba14af, 0x104495a1,
     0xd120b428, 0x73b55fa3, 0xcc874966, 0x92244439,
     0xe89e641f, 0x98ca015a, 0xc7159060, 0x99e1fd2e,
     0xb79bd80c, 0x1d2115b0, 0x0e228aeb, 0xf1780c81,
     0x428d3654, 0x62293496, 0x01cf72e5, 0x9124a012]"

subsection \<open>The counter-mode key stream\<close>

text \<open>
  The keystream blocks \<open>E(j0 + 1), E(j0 + 2), \<dots>\<close> that the counter-mode loops
  consume, and their first \<open>len\<close> bytes.
\<close>

definition keystream :: "word32 list \<Rightarrow> byte list \<Rightarrow> nat \<Rightarrow> byte list" where
  "keystream rk j0 n =
     concat (map (\<lambda>i. TTable_encrypt rk ((incrementCounter ^^ Suc i) j0)) [0..<n])"

definition ctrStream :: "word32 list \<Rightarrow> byte list \<Rightarrow> nat \<Rightarrow> byte list" where
  "ctrStream rk j0 len =
     keystream rk j0 (len div 16) @
     take (len mod 16) (TTable_encrypt rk ((incrementCounter ^^ Suc (len div 16)) j0))"

subsection \<open>Byte arrays as 128-bit values\<close>

text \<open>
  The multiplication of \<open>gfmul\<close> on 128-bit words: \<open>mulX\<close> is the shift of \<open>v\<close> with the
  conditional \<open>0xE1\<close> in the top byte, \<open>gfmulWordStep\<close> one iteration of the loop,
  \<open>xorSum f n\<close> the xor of \<open>f 0, \<dots>, f (n - 1)\<close>, and \<open>gfProduct\<close> the value the
  loop accumulates.
\<close>

type_synonym word128 = "128 word"

definition mulX :: "word128 \<Rightarrow> word128" where
  "mulX v = drop_bit 1 v XOR (if bit v 0 then push_bit 120 0xE1 else 0)"

primrec xorSum :: "(nat \<Rightarrow> word128) \<Rightarrow> nat \<Rightarrow> word128" where
  "xorSum f 0 = 0"
| "xorSum f (Suc n) = xorSum f n XOR f n"

definition unitBit :: "nat \<Rightarrow> word128" where
  "unitBit i = push_bit (127 - i) 1"

definition gfProduct :: "word128 \<Rightarrow> word128 \<Rightarrow> word128" where
  "gfProduct x y = xorSum (\<lambda>i. if bit x (127 - i) then (mulX ^^ i) y else 0) 128"

definition gfmulWordStep :: "word128 \<Rightarrow> nat \<Rightarrow> word128 \<times> word128 \<Rightarrow> word128 \<times> word128" where
  "gfmulWordStep x i zv =
     (case zv of (z, v) \<Rightarrow> (if bit x (127 - i) then z XOR v else z, mulX v))"

text \<open>
  The bits of a byte array in the order in which \<open>gfmul\<close> visits them (byte 0 first,
  most significant bit first), and the 128-bit word whose most significant bit is the
  first of them.
\<close>

definition byteBits :: "byte \<Rightarrow> bool list" where
  "byteBits b = map (\<lambda>k. bit b (7 - k)) [0..<8]"

definition bitsOf :: "byte list \<Rightarrow> bool list" where
  "bitsOf xs = concat (map byteBits xs)"

definition toWord128 :: "byte list \<Rightarrow> word128" where
  "toWord128 xs = horner_sum of_bool 2 (rev (bitsOf xs))"

subsection \<open>Sessions used as concrete inputs\<close>

text \<open>
  \<open>SM4_GCM() = default\<close>: the vectors \<open>iv\<close> and \<open>aad\<close> are empty. No constructor
  writes the arrays \<open>roundKeys\<close> and \<open>H\<close>; they hold whatever the storage held, which
  is the pair of parameters (32 words and 2 words).
\<close>

definition constructed :: "word32 list \<Rightarrow> 64 word list \<Rightarrow> SM4_GCM" where
  "constructed rk0 h0 = \<lparr>sm4 = rk0, H = h0, iv = [], aad = []\<rparr>"

text \<open>
  One constructed object with stale array contents. Every use below calls \<open>setKey\<close> or
  \<open>clear\<close> on it before an operation reads the arrays.
\<close>

definition freshSession :: SM4_GCM where
  "freshSession =
     constructed (replicate 32 0xDEADBEEF) [0x0123456789ABCDEF, 0xFEDCBA9876543210]"

definition testSession :: SM4_GCM where
  "testSession = SM4_GCM_setIV (replicate 12 0) (SM4_GCM_setKey test_key freshSession)"

section \<open>Bytes and words\<close>

lemma byte_of_pack32:
  fixes a b c d :: byte
  defines "w \<equiv> (push_bit 24 (ucast a) OR push_bit 16 (ucast b) OR push_bit 8 (ucast c) OR ucast d :: word32)"
  shows "ucast (drop_bit 24 w) = a" "ucast (drop_bit 16 w) = b" "ucast (drop_bit 8 w) = c" "ucast w = d"
  unfolding w_def
  by (rule bit_eqI; auto simp add: bit_simps dest: bit_imp_le_length)+

lemma pack32_of_bytes:
  fixes w :: word32
  shows "push_bit 24 (ucast (ucast (drop_bit 24 w) :: byte)) OR push_bit 16 (ucast (ucast (drop_bit 16 w) :: byte)) OR
         push_bit 8 (ucast (ucast (drop_bit 8 w) :: byte)) OR ucast (ucast w :: byte) = w"
proof (rule bit_eqI)
  fix n
  assume "possible_bit TYPE(word32) n"
  then have n: "n < 32" by (simp add: possible_bit_def)
  consider "n < 8" | "8 \<le> n" "n < 16" | "16 \<le> n" "n < 24" | "24 \<le> n"
    by linarith
  then show "bit (push_bit 24 (ucast (ucast (drop_bit 24 w) :: byte)) OR push_bit 16 (ucast (ucast (drop_bit 16 w) :: byte)) OR
         push_bit 8 (ucast (ucast (drop_bit 8 w) :: byte)) OR (ucast (ucast w :: byte) :: word32)) n = bit w n"
    using n by cases (auto simp add: bit_simps)
qed

lemma load32_store32_0: "load32 (store32 a @ rest) 0 = a"
  by (simp add: load32_def store32_def pack32_of_bytes)

lemma load32_store32_Suc: "load32 (store32 a @ rest) (Suc i) = load32 rest i"
  by (simp add: load32_def store32_def nth_append add.commute)

lemma take4_drop:
  assumes "k + 4 \<le> length p"
  shows "[p ! k, p ! (k + 1), p ! (k + 2), p ! (k + 3)] = take 4 (drop k p)"
proof -
  have "take 4 (drop k p) = map (\<lambda>j. p ! (k + j)) [0..<4]"
    using assms by (intro nth_equalityI) auto
  also have "[0..<4] = [0, 1, 2, 3::nat]"
    by (simp add: upt_rec [of _ "numeral _"])
  finally show ?thesis by simp
qed

lemma store32_load32:
  assumes "4 * i + 4 \<le> length p"
  shows "store32 (load32 p i) = take 4 (drop (4 * i) p)"
proof -
  have "store32 (load32 p i) = [p ! (4 * i), p ! (4 * i + 1), p ! (4 * i + 2), p ! (4 * i + 3)]"
    unfolding load32_def store32_def by (simp only: byte_of_pack32)
  then show ?thesis using take4_drop [OF assms] by simp
qed

lemma loadBlock_storeReversed: "loadBlock (storeReversed X) = reverse4 X"
  by (cases X)
    (simp add: loadBlock_def storeReversed_def reverse4_def numeral_2_eq_2 numeral_3_eq_3
      load32_store32_0 load32_store32_Suc load32_store32_0 [of _ "[]", simplified])

lemma storeReversed_loadBlock:
  assumes "length B = 16"
  shows "storeReversed (reverse4 (loadBlock B)) = B"
proof -
  have "storeReversed (reverse4 (loadBlock B))
      = take 4 (drop 0 B) @ take 4 (drop 4 B) @ take 4 (drop 8 B) @ take 4 (drop 12 B)"
    using assms store32_load32 [of 0 B] store32_load32 [of 1 B] store32_load32 [of 2 B] store32_load32 [of 3 B]
    by (simp add: storeReversed_def reverse4_def loadBlock_def)
  also have "\<dots> = take 16 B"
    using take_add [of 4 12 B] take_add [of 4 8 "drop 4 B"] take_add [of 4 4 "drop 8 B"]
    by simp
  finally show ?thesis using assms by simp
qed

lemma loadBlock_prefix:
  assumes "16 \<le> length b"
  shows "loadBlock (b @ rest) = loadBlock b"
  using assms by (auto simp add: loadBlock_def load32_def nth_append)

section \<open>The rounds undo themselves in reverse order\<close>

lemma roundStep_involution:
  "roundStep F k (reverse4 (roundStep F k X)) = reverse4 X"
  by (cases X) (simp add: roundStep_def reverse4_def xor.commute xor.left_commute)

lemma rounds_reversed:
  "rounds F rk (rev order) (reverse4 (rounds F rk order X)) = reverse4 X"
proof (induction order arbitrary: X)
  case Nil
  show ?case by (simp add: rounds_def)
next
  case (Cons i order)
  have "rounds F rk (rev (i # order)) (reverse4 (rounds F rk (i # order) X))
      = roundStep F (rk ! i) (rounds F rk (rev order) (reverse4 (rounds F rk order (roundStep F (rk ! i) X))))"
    by (simp add: rounds_def)
  also have "\<dots> = roundStep F (rk ! i) (reverse4 (roundStep F (rk ! i) X))"
    by (simp only: Cons.IH)
  also have "\<dots> = reverse4 X"
    by (rule roundStep_involution)
  finally show ?case .
qed

lemma cryptBlock_dec_enc:
  assumes "length B = 16"
  shows "cryptBlock F rk decOrder (cryptBlock F rk encOrder B) = B"
proof -
  have "rounds F rk decOrder (reverse4 (rounds F rk encOrder (loadBlock B))) = reverse4 (loadBlock B)"
    unfolding decOrder_def encOrder_def by (rule rounds_reversed)
  then show ?thesis
    by (simp add: cryptBlock_def loadBlock_storeReversed storeReversed_loadBlock [OF assms])
qed

lemma length_cryptBlock: "length (cryptBlock F rk order p) = 16"
  by (cases "rounds F rk order (loadBlock p)") (simp add: cryptBlock_def storeReversed_def store32_def)

lemma cryptBlock_prefix:
  assumes "16 \<le> length b"
  shows "cryptBlock F rk order (b @ rest) = cryptBlock F rk order b"
  by (simp add: cryptBlock_def loadBlock_prefix [OF assms])

text \<open>
  C1. For every 16-byte key \<open>K\<close> and every 16-byte block \<open>B\<close>, after \<open>setKey(K)\<close>
  on any of the backends TTable, AESNI and ModernISA (with the capability flag set or
  not), \<open>decrypt(encrypt(B))\<close> is exactly \<open>B\<close>.
\<close>

theorem block_roundtrip:
  assumes "length K = 16" and "length B = 16"
  shows "TTable_decrypt (TTable_setKey K) (TTable_encrypt (TTable_setKey K) B) = B \<and>
         AESNI_decrypt (AESNI_setKey K) (AESNI_encrypt (AESNI_setKey K) B) = B \<and>
         ModernISA_decrypt avx (ModernISA_setKey K) (ModernISA_encrypt avx (ModernISA_setKey K) B) = B"
  using assms(2)
  by (simp add: TTable_decrypt_def TTable_encrypt_def AESNI_decrypt_def AESNI_encrypt_def
      ModernISA_decrypt_def ModernISA_encrypt_def cryptBlock_dec_enc)

theorem block_roundtrip_witness:
  "length test_key = 16 \<and> length test_plaintext = 16 \<and>
   TTable_decrypt (TTable_setKey test_key) (TTable_encrypt (TTable_setKey test_key) test_plaintext)
     = test_plaintext \<and>
   AESNI_decrypt (AESNI_setKey test_key) (AESNI_encrypt (AESNI_setKey test_key) test_plaintext)
     = test_plaintext \<and>
   ModernISA_decrypt True (ModernISA_setKey test_key)
     (ModernISA_encrypt True (ModernISA_setKey test_key) test_plaintext) = test_plaintext \<and>
   ModernISA_decrypt False (ModernISA_setKey test_key)
     (ModernISA_encrypt False (ModernISA_setKey test_key) test_plaintext) = test_plaintext"
proof -
  have k: "length test_key = 16" and b: "length test_plaintext = 16"
    by (simp_all add: test_key_def test_plaintext_def)
  show ?thesis
    using k b block_roundtrip [OF k b, of True] block_roundtrip [OF k b, of False]
    by simp
qed

section \<open>The round functions of the backends coincide\<close>

lemma rotl32:
  fixes w :: word32
  assumes "n < 32"
  shows "word_rotl n w = push_bit n w OR drop_bit (32 - n) w"
proof (rule bit_eqI)
  fix k
  assume "possible_bit TYPE(word32) k"
  then have k: "k < 32" by (simp add: possible_bit_def)
  show "bit (word_rotl n w) k = bit (push_bit n w OR drop_bit (32 - n) w) k"
  proof (cases "n \<le> k")
    case True
    with k assms have "(k + (32 - n mod 32)) mod 32 = k - n"
      by (simp add: mod_if) 
    then show ?thesis using k assms True
      by (auto simp add: bit_simps dest: bit_imp_le_length)
  next
    case False
    with k assms have "(k + (32 - n mod 32)) mod 32 = 32 - n + k"
      by (auto simp add: mod_if) 
    then show ?thesis using k assms False
      by (auto simp add: bit_simps dest: bit_imp_le_length)
  qed
qed

lemma ucast_and_ff: "(ucast ((w :: word32) AND 0xFF) :: byte) = ucast w"
proof -
  have eq: "(0xFF :: word32) = mask 8" by (simp add: mask_eq_exp_minus_1)
  show ?thesis
    unfolding eq by (rule bit_eqI) (auto simp add: bit_simps)
qed

lemma feistelFunctionAVX_eq: "feistelFunctionAVX t = linearTransform (sboxBytes t)"
  by (simp add: feistelFunctionAVX_def linearTransform_def leftRotate_def sboxBytes_def
      ucast_and_ff rotl32 Let_def)

lemma word_rotl_xor:
  "word_rotl n (a XOR b) = word_rotl n a XOR word_rotl n (b :: word32)"
  by (rule bit_eqI) (simp add: bit_simps)

lemma linearTransform_xor:
  "linearTransform (a XOR b) = linearTransform a XOR linearTransform b"
  by (simp add: linearTransform_def leftRotate_def word_rotl_xor xor.commute xor.left_commute xor.assoc)

lemma of_nat_unat_byte: "of_nat (unat (b :: byte)) = b"
  by simp

lemma T_nth:
  "T0 ! unat (b :: byte) = linearTransform (push_bit 24 (ucast (sbox b)))"
  "T1 ! unat b = linearTransform (push_bit 16 (ucast (sbox b)))"
  "T2 ! unat b = linearTransform (push_bit 8 (ucast (sbox b)))"
  "T3 ! unat b = linearTransform (ucast (sbox b))"
proof -
  have "unat b < 256" using unsigned_less [of b] by simp
  then show "T0 ! unat (b :: byte) = linearTransform (push_bit 24 (ucast (sbox b)))"
  "T1 ! unat b = linearTransform (push_bit 16 (ucast (sbox b)))"
  "T2 ! unat b = linearTransform (push_bit 8 (ucast (sbox b)))"
  "T3 ! unat b = linearTransform (ucast (sbox b))"
    by (simp_all add: T0_def T1_def T2_def T3_def)
qed

lemma bytes_or_xor:
  fixes a b c d :: byte
  shows "(ucast a OR push_bit 8 (ucast b) OR push_bit 16 (ucast c) OR push_bit 24 (ucast d) :: word32)
       = push_bit 24 (ucast d) XOR push_bit 16 (ucast c) XOR push_bit 8 (ucast b) XOR ucast a"
  by (rule bit_eqI) (auto simp add: bit_simps dest: bit_imp_le_length)

lemma TTable_feistelFunction_eq: "TTable_feistelFunction t = linearTransform (sboxBytes t)"
  by (simp add: TTable_feistelFunction_def Let_def T_nth sboxBytes_def bytes_or_xor linearTransform_xor)

lemma cryptBlock_AVX: "cryptBlock feistelFunctionAVX = cryptBlock AESNI_roundFunction"
proof -
  have "feistelFunctionAVX = AESNI_roundFunction"
    by (rule ext) (simp add: feistelFunctionAVX_eq AESNI_roundFunction_def)
  then show ?thesis by simp
qed

lemma ModernISA_roundFunction_eq: "ModernISA_roundFunction avx = AESNI_roundFunction"
  by (rule ext) (simp add: ModernISA_roundFunction_def feistelFunctionAVX_eq AESNI_roundFunction_def)

lemma TTable_feistelFunction_eq': "TTable_feistelFunction = AESNI_roundFunction"
  by (rule ext) (simp add: TTable_feistelFunction_eq AESNI_roundFunction_def)


text \<open>
  C2. For every 16-byte key and 16-byte block, TTable, AESNI and ModernISA (with the
  capability flag set or not) produce the same encrypt output. In particular every table
  entry is \<open>Tk[b] = linearTransform(sbox(b) << (24 - 8k))\<close>, and the fused round function
  \<open>T0[b0] ^ T1[b1] ^ T2[b2] ^ T3[b3]\<close> equals the S-box applied to each byte of the round
  input followed by \<open>linearTransform\<close>.
\<close>

theorem backends_agree:
  assumes "length K = 16" and "length B = 16"
  shows "TTable_encrypt (TTable_setKey K) B = AESNI_encrypt (AESNI_setKey K) B \<and>
         ModernISA_encrypt True (ModernISA_setKey K) B = AESNI_encrypt (AESNI_setKey K) B \<and>
         ModernISA_encrypt False (ModernISA_setKey K) B = AESNI_encrypt (AESNI_setKey K) B \<and>
         (\<forall>b. T0 ! unat b = linearTransform (push_bit 24 (ucast (sbox b))) \<and>
              T1 ! unat b = linearTransform (push_bit 16 (ucast (sbox b))) \<and>
              T2 ! unat b = linearTransform (push_bit 8 (ucast (sbox b))) \<and>
              T3 ! unat b = linearTransform (ucast (sbox b))) \<and>
         (\<forall>w. TTable_feistelFunction w = linearTransform (sboxBytes w))"
  by (simp add: TTable_encrypt_def AESNI_encrypt_def ModernISA_encrypt_def
      TTable_setKey_def AESNI_setKey_def ModernISA_setKey_def
      TTable_feistelFunction_eq' ModernISA_roundFunction_eq T_nth AESNI_roundFunction_def)


theorem backends_agree_witness:
  "length test_key = 16 \<and> length test_plaintext = 16 \<and>
   TTable_encrypt (TTable_setKey test_key) test_plaintext
     = AESNI_encrypt (AESNI_setKey test_key) test_plaintext \<and>
   ModernISA_encrypt True (ModernISA_setKey test_key) test_plaintext
     = AESNI_encrypt (AESNI_setKey test_key) test_plaintext \<and>
   ModernISA_encrypt False (ModernISA_setKey test_key) test_plaintext
     = AESNI_encrypt (AESNI_setKey test_key) test_plaintext \<and>
   TTable_feistelFunction 0x01234567 = linearTransform (sboxBytes 0x01234567)"
proof -
  have k: "length test_key = 16" and b: "length test_plaintext = 16"
    by (simp_all add: test_key_def test_plaintext_def)
  show ?thesis
    using k b backends_agree [OF k b] by simp
qed

section \<open>The standard test vector\<close>

lemma and_ffffffff: "(x :: word32) AND 0xFFFFFFFF = x"
proof -
  have eq: "(0xFFFFFFFF :: word32) = mask 32" by (simp add: mask_eq_exp_minus_1)
  show ?thesis unfolding eq using take_bit_length_eq [of x] by (simp add: take_bit_eq_mask)
qed

lemma rotl32_eval:
  fixes w :: word32
  assumes "n < 32"
  shows "word_rotl n w = (push_bit n w AND 0xFFFFFFFF) OR drop_bit (32 - n) w"
  by (simp only: and_ffffffff rotl32 [OF assms])

lemma Let_weak: "s = t \<Longrightarrow> Let s f = Let t f" by simp

lemma rounds_Nil: "rounds F rk [] X = X"
  by (simp add: rounds_def)

lemma rounds_Cons: "rounds F rk (i # order) X = rounds F rk order (roundStep F (rk ! i) X)"
  by (simp add: rounds_def)

lemma roundStep_tuple:
  "roundStep F k (x0, x1, x2, x3) = (x1, x2, x3, x0 XOR F (x1 XOR x2 XOR x3 XOR k))"
  by (simp add: roundStep_def)

lemmas eval_defs = linearTransform_def linearTransformPrime_def sboxBytes_def sbox_def SBOX_def leftRotate_def rotl32_eval
  load32_def store32_def loadBlock_def storeReversed_def roundStep_tuple rounds_Nil rounds_Cons cryptBlock_def encOrder_def decOrder_def
  FK_def CK_def AESNI_roundFunction_def


lemma test_roundKeys_eq: "keyExpansion test_key = test_roundKeys"
  unfolding test_key_def test_roundKeys_def
  by (simp add: eval_defs keyExpansion_def upt_rec [of _ "numeral _"] cong: Let_weak)

lemma test_AESNI:
  "cryptBlock AESNI_roundFunction test_roundKeys encOrder test_plaintext = expected_ciphertext"
  unfolding test_plaintext_def test_roundKeys_def expected_ciphertext_def
  by (simp add: eval_defs upt_rec [of _ "numeral _"])


text \<open>
  C3. After \<open>setKey\<close> on the key \<open>0123456789abcdeffedcba9876543210\<close>, \<open>encrypt\<close> of
  the plaintext with the same bytes gives \<open>681edf34d206965e86b3e94f536e4246\<close>, under
  TTable, AESNI and ModernISA (flag set or not).
\<close>

theorem known_answer:
  "TTable_encrypt (TTable_setKey test_key) test_plaintext = expected_ciphertext \<and>
   AESNI_encrypt (AESNI_setKey test_key) test_plaintext = expected_ciphertext \<and>
   ModernISA_encrypt True (ModernISA_setKey test_key) test_plaintext = expected_ciphertext \<and>
   ModernISA_encrypt False (ModernISA_setKey test_key) test_plaintext = expected_ciphertext"
  by (simp add: TTable_encrypt_def AESNI_encrypt_def ModernISA_encrypt_def
      TTable_setKey_def AESNI_setKey_def ModernISA_setKey_def
      TTable_feistelFunction_eq' ModernISA_roundFunction_eq test_roundKeys_eq test_AESNI)


section \<open>Batches are sequences of single blocks\<close>

lemma length_concat_const:
  assumes "\<And>i. i < n \<Longrightarrow> length (f i) = m"
  shows "length (concat (map f [0..<n])) = n * m"
  using assms by (induction n) simp_all

lemma length_storeAt:
  "off + length bs \<le> length out \<Longrightarrow> length (storeAt out off bs) = length out"
  by (simp add: storeAt_def)

lemma fold_stores:
  assumes step: "\<And>i o'. i < n \<Longrightarrow> length o' = length out \<Longrightarrow> h i o' = storeAt o' (base + i * m) (f i)"
      and len: "\<And>i. i < n \<Longrightarrow> length (f i) = m"
      and room: "base + n * m \<le> length out"
  shows "fold h [0..<n] out = take base out @ concat (map f [0..<n]) @ drop (base + n * m) out"
  using assms
proof (induction n)
  case 0
  then show ?case by simp
next
  case (Suc n)
  let ?C = "concat (map f [0..<n])"
  let ?X = "take base out @ ?C @ drop (base + n * m) out"
  have lenC: "length ?C = n * m"
    using Suc.prems(2) by (intro length_concat_const) simp
  have IH: "fold h [0..<n] out = ?X"
    using Suc.prems by (intro Suc.IH) auto
  have lenX: "length ?X = length out"
    using Suc.prems(3) lenC by simp
  have lenf: "length (f n) = m"
    using Suc.prems(2) by simp
  have "fold h [0..<Suc n] out = h n ?X"
    by (simp add: IH)
  also have "\<dots> = storeAt ?X (base + n * m) (f n)"
    using Suc.prems(1) [of n ?X] lenX by simp
  also have "\<dots> = take base out @ (?C @ f n) @ drop (base + n * m + m) out"
    using Suc.prems(3) lenC lenf by (simp add: storeAt_def add.commute add.left_commute)
  finally show ?case
    by (simp add: add.commute add.left_commute)
qed

lemma lockstepRounds_map:
  "lockstepRounds rk order Xs = map (rounds feistelFunctionAVX rk order) Xs"
proof (induction order arbitrary: Xs)
  case Nil
  show ?case by (simp add: lockstepRounds_def rounds_def)
next
  case (Cons r order)
  have "lockstepRounds rk (r # order) Xs
      = lockstepRounds rk order (map (roundStep feistelFunctionAVX (rk ! r)) Xs)"
    by (simp add: lockstepRounds_def)
  also have "\<dots> = map (rounds feistelFunctionAVX rk order) (map (roundStep feistelFunctionAVX (rk ! r)) Xs)"
    by (rule Cons.IH)
  finally show ?case by (simp add: rounds_def)
qed

lemma map_nth_upt: "map (\<lambda>k. g (xs ! k)) [0..<length xs] = map g xs"
  by (rule nth_equalityI) auto

lemma upt4: "[0..<4] = [0, 1, 2, 3::nat]"
  by (simp add: upt_rec [of _ "numeral _"])

lemma storeGroup_eq:
  assumes "length Xs = 4" and "b * 16 + 64 \<le> length out"
  shows "storeGroup Xs b out = storeAt out (b * 16) (concat (map storeReversed Xs))"
proof -
  have len: "\<And>k. length (storeReversed (Xs ! k)) = 16"
    by (simp add: storeReversed_def store32_def split: prod.split)
  have "storeGroup Xs b out
      = take (b * 16) out @ concat (map (\<lambda>k. storeReversed (Xs ! k)) [0..<4]) @ drop (b * 16 + 4 * 16) out"
    unfolding storeGroup_def using assms(2)
    by (intro fold_stores) (simp_all add: len algebra_simps)
  moreover have "map (\<lambda>k. storeReversed (Xs ! k)) [0..<4] = map storeReversed Xs"
    using map_nth_upt [of storeReversed Xs] assms(1) by simp
  moreover have "length (concat (map storeReversed Xs)) = 64"
    using length_concat_const [of 4 "\<lambda>k. storeReversed (Xs ! k)" 16] len
      \<open>map (\<lambda>k. storeReversed (Xs ! k)) [0..<4] = map storeReversed Xs\<close> by simp
  ultimately show ?thesis
    by (simp add: storeAt_def)
qed

lemma concat_groups:
  "concat (map (\<lambda>g. concat (map (\<lambda>k. f (4 * g + k)) [0..<4])) [0..<q])
   = concat (map f [0..<4 * q])"
proof (induction q)
  case 0
  show ?case by simp
next
  case (Suc q)
  have "[0..<4 * q + 4] = [0..<4 * q] @ [4 * q..<4 * q + 4]"
    by (rule upt_add_eq_append) simp
  moreover have "[4 * q..<4 * q + 4] = map (\<lambda>k. 4 * q + k) [0..<4]"
    using map_add_upt [of "4 * q" 4] by (simp add: add.commute)
  ultimately have "[0..<4 * Suc q] = [0..<4 * q] @ map (\<lambda>k. 4 * q + k) [0..<4]"
    by (simp add: add.commute)
  then show ?case
    using Suc.IH by (simp add: comp_def)
qed

lemma group_bytes:
  "concat (map storeReversed (lockstepRounds rk order (loadGroup p b)))
   = concat (map (\<lambda>k. cryptBlock feistelFunctionAVX rk order (drop ((b + k) * 16) p)) [0..<4])"
  by (simp add: lockstepRounds_map loadGroup_def cryptBlock_def comp_def)

lemma cryptGroups_eq:
  assumes room: "4 * q * 16 \<le> length out" and q: "q = N div 4"
  shows "cryptGroups rk order p N out
       = concat (map (\<lambda>i. cryptBlock feistelFunctionAVX rk order (drop (i * 16) p)) [0..<4 * q])
         @ drop (4 * q * 16) out"
proof -
  let ?E = "\<lambda>i. cryptBlock feistelFunctionAVX rk order (drop (i * 16) p)"
  let ?G = "\<lambda>g. concat (map (\<lambda>k. ?E (4 * g + k)) [0..<4])"
  have lenG: "length (?G g) = 64" for g
    using length_concat_const [of 4 "\<lambda>k. ?E (4 * g + k)" 16] by (simp add: length_cryptBlock)
  have step: "storeGroup (lockstepRounds rk order (loadGroup p (4 * g))) (4 * g) o'
            = storeAt o' (0 + g * 64) (?G g)"
    if "g < q" "length o' = length out" for g o'
  proof -
    have "4 * g * 16 + 64 \<le> length o'"
      using that room by simp
    moreover have "length (lockstepRounds rk order (loadGroup p (4 * g))) = 4"
      by (simp add: lockstepRounds_map loadGroup_def)
    ultimately have "storeGroup (lockstepRounds rk order (loadGroup p (4 * g))) (4 * g) o'
        = storeAt o' (4 * g * 16) (concat (map storeReversed (lockstepRounds rk order (loadGroup p (4 * g)))))"
      by (intro storeGroup_eq)
    moreover have "4 * g * 16 = 0 + g * 64" by simp
    ultimately show ?thesis
      by (simp only: group_bytes)
  qed
  have "cryptGroups rk order p N out
      = take 0 out @ concat (map ?G [0..<q]) @ drop (0 + q * 64) out"
    unfolding cryptGroups_def q [symmetric]
    using room by (intro fold_stores step lenG) simp_all
  also have "concat (map ?G [0..<q]) = concat (map ?E [0..<4 * q])"
    by (rule concat_groups)
  also have "0 + q * 64 = 4 * q * 16"
    by simp
  finally show ?thesis
    by (simp only: take_0 append_Nil)
qed

lemma ModernISA_roundFunction_True: "ModernISA_roundFunction True = feistelFunctionAVX"
  by (rule ext) (simp add: ModernISA_roundFunction_def)

lemma batch_core:
  fixes avx :: bool and rk :: "word32 list" and order :: "nat list" and p :: "byte list"
  defines "E \<equiv> \<lambda>i. cryptBlock (ModernISA_roundFunction avx) rk order (drop (i * 16) p)"
  assumes room: "N * 16 \<le> length out"
  shows "(if avx \<and> N \<ge> 4 then
            (let out1 = cryptGroups rk order p N out;
                 remaining = N mod 4
             in fold (\<lambda>i o'. storeAt o' ((N - remaining + i) * 16) (E (N - remaining + i)))
                  [0..<remaining] out1)
          else fold (\<lambda>i o'. storeAt o' (i * 16) (E i)) [0..<N] out)
       = concat (map E [0..<N]) @ drop (N * 16) out"
proof (cases "avx \<and> N \<ge> 4")
  case False
  have lenE: "length (E i) = 16" for i
    by (simp add: E_def length_cryptBlock)
  have "fold (\<lambda>i o'. storeAt o' (i * 16) (E i)) [0..<N] out
      = take 0 out @ concat (map E [0..<N]) @ drop (0 + N * 16) out"
    using room by (intro fold_stores lenE) simp_all
  then have "fold (\<lambda>i o'. storeAt o' (i * 16) (E i)) [0..<N] out
      = concat (map E [0..<N]) @ drop (N * 16) out"
    by simp
  then show ?thesis
    unfolding if_not_P [OF False] .
next
  case True
  define q r where "q = N div 4" and "r = N mod 4"
  have N: "N = 4 * q + r" by (simp add: q_def r_def)
  have Nr: "N - r = 4 * q" using N by simp
  have lenE: "length (E i) = 16" for i
    by (simp add: E_def length_cryptBlock)
  let ?A = "concat (map E [0..<4 * q])"
  have lenA: "length ?A = 4 * q * 16"
    using length_concat_const [of "4 * q" E 16] lenE by simp
  have "4 * q * 16 \<le> length out"
    using room N by simp
  then have out1: "cryptGroups rk order p N out = ?A @ drop (4 * q * 16) out"
    using True by (simp only: cryptGroups_eq [OF _ q_def] E_def ModernISA_roundFunction_True)
  let ?out1 = "?A @ drop (4 * q * 16) out"
  have len1: "length ?out1 = length out"
    using lenA room N by simp
  have "fold (\<lambda>i o'. storeAt o' ((4 * q + i) * 16) (E (4 * q + i))) [0..<r] ?out1
      = take (4 * q * 16) ?out1 @ concat (map (\<lambda>i. E (4 * q + i)) [0..<r])
        @ drop (4 * q * 16 + r * 16) ?out1"
  proof (intro fold_stores lenE)
    show "4 * q * 16 + r * 16 \<le> length ?out1"
      using room N len1 by simp
  qed (simp add: algebra_simps)
  also have "take (4 * q * 16) ?out1 = ?A"
    using lenA by simp
  also have "drop (4 * q * 16 + r * 16) ?out1 = drop (N * 16) out"
    using lenA N by (simp add: algebra_simps)
  also have "map (\<lambda>i. E (4 * q + i)) [0..<r] = map E [4 * q..<4 * q + r]"
    using map_add_upt [of "4 * q" r]
    by (simp add: map_add_upt [symmetric] comp_def add.commute del: map_add_upt)
  finally have "fold (\<lambda>i o'. storeAt o' ((4 * q + i) * 16) (E (4 * q + i))) [0..<r] ?out1
      = concat (map E ([0..<4 * q] @ [4 * q..<4 * q + r])) @ drop (N * 16) out"
    by simp
  moreover have "[0..<4 * q] @ [4 * q..<4 * q + r] = [0..<N]"
    using upt_add_eq_append [of 0 "4 * q" r] N by simp
  ultimately show ?thesis
    unfolding if_P [OF True] Let_def r_def [symmetric] Nr out1 by simp
qed

lemma drop_concat_blocks:
  assumes "\<forall>b \<in> set blocks. length b = 16"
  shows "drop (i * 16) (concat blocks) = concat (drop i blocks)"
  using assms
proof (induction blocks arbitrary: i)
  case Nil
  show ?case by simp
next
  case (Cons b blocks)
  show ?case
  proof (cases i)
    case 0
    then show ?thesis by simp
  next
    case (Suc j)
    with Cons show ?thesis by simp
  qed
qed

lemma blockwise:
  assumes "\<forall>b \<in> set blocks. length b = 16"
  shows "map (\<lambda>i. cryptBlock F rk order (drop (i * 16) (concat blocks))) [0..<length blocks]
       = map (cryptBlock F rk order) blocks"
proof -
  have "cryptBlock F rk order (drop (i * 16) (concat blocks)) = cryptBlock F rk order (blocks ! i)"
    if "i < length blocks" for i
  proof -
    have "drop (i * 16) (concat blocks) = blocks ! i @ concat (drop (Suc i) blocks)"
      using that by (simp add: drop_concat_blocks [OF assms] Cons_nth_drop_Suc [symmetric])
    moreover have "16 \<le> length (blocks ! i)"
      using assms that by simp
    ultimately show ?thesis
      by (simp add: cryptBlock_prefix)
  qed
  then have "map (\<lambda>i. cryptBlock F rk order (drop (i * 16) (concat blocks))) [0..<length blocks]
      = map (\<lambda>i. cryptBlock F rk order (blocks ! i)) [0..<length blocks]"
    by simp
  then show ?thesis
    by (simp only: map_nth_upt)
qed


text \<open>
  C6. For any contents \<open>rk\<close> of the round-key array (in particular after \<open>setKey\<close> on
  any key), any number of 16-byte blocks laid out one after the other, and an output
  buffer of that size, \<open>encryptBlocks\<close> leaves in the buffer the single-block
  \<open>encrypt\<close> results of the blocks in input order, and \<open>decryptBlocks\<close> the
  single-block \<open>decrypt\<close> results; with the capability flag set (groups of four in
  lockstep, the rest through the single-block path) and without it.
\<close>

theorem batch_equals_single_blocks:
  assumes "\<forall>b \<in> set blocks. length b = 16" and "length out = 16 * length blocks"
  shows "ModernISA_encryptBlocks avx rk (concat blocks) out (length blocks)
           = concat (map (ModernISA_encrypt avx rk) blocks) \<and>
         ModernISA_decryptBlocks avx rk (concat blocks) out (length blocks)
           = concat (map (ModernISA_decrypt avx rk) blocks)"
proof -
  have room: "length blocks * 16 \<le> length out"
    using assms(2) by simp
  have "ModernISA_encryptBlocks avx rk (concat blocks) out (length blocks)
      = concat (map (\<lambda>i. cryptBlock (ModernISA_roundFunction avx) rk encOrder
                        (drop (i * 16) (concat blocks))) [0..<length blocks])
        @ drop (length blocks * 16) out"
    unfolding ModernISA_encryptBlocks_def ModernISA_encrypt_def
    by (rule batch_core [OF room])
  moreover have "ModernISA_decryptBlocks avx rk (concat blocks) out (length blocks)
      = concat (map (\<lambda>i. cryptBlock (ModernISA_roundFunction avx) rk decOrder
                        (drop (i * 16) (concat blocks))) [0..<length blocks])
        @ drop (length blocks * 16) out"
    unfolding ModernISA_decryptBlocks_def ModernISA_decrypt_def
    by (rule batch_core [OF room])
  ultimately show ?thesis
    using assms(2) by (simp add: blockwise [OF assms(1)] ModernISA_encrypt_def [abs_def] ModernISA_decrypt_def [abs_def])
qed

theorem batch_equals_single_blocks_witness:
  "length test_plaintext = 16 \<and>
   length (replicate 80 (0 :: byte)) = 16 * length (replicate 5 test_plaintext) \<and>
   ModernISA_encryptBlocks True (ModernISA_setKey test_key) (concat (replicate 5 test_plaintext))
       (replicate 80 0) (length (replicate 5 test_plaintext))
     = concat (map (ModernISA_encrypt True (ModernISA_setKey test_key)) (replicate 5 test_plaintext)) \<and>
   ModernISA_decryptBlocks True (ModernISA_setKey test_key) (concat (replicate 5 test_plaintext))
       (replicate 80 0) (length (replicate 5 test_plaintext))
     = concat (map (ModernISA_decrypt True (ModernISA_setKey test_key)) (replicate 5 test_plaintext))"
proof -
  have h1: "\<forall>b \<in> set (replicate 5 test_plaintext). length b = 16"
    by (simp add: test_plaintext_def)
  have h2: "length (replicate 80 (0 :: byte)) = 16 * length (replicate 5 test_plaintext)"
    by simp
  have h0: "length test_plaintext = 16"
    by (simp add: test_plaintext_def)
  show ?thesis
    using batch_equals_single_blocks [OF h1 h2, of True "ModernISA_setKey test_key"] h0 h2
    by blast
qed

section \<open>Multiplication in GF(2^128) is commutative\<close>

subsection \<open>On 128-bit words\<close>

lemma mulX_zero: "mulX 0 = 0"
  by (simp add: mulX_def)

lemma mulX_xor: "mulX (a XOR b) = mulX a XOR mulX b"
proof -
  have "drop_bit 1 (a XOR b) = drop_bit 1 a XOR drop_bit 1 b"
    by (rule bit_eqI) (simp add: bit_simps)
  moreover have "bit (a XOR b) 0 \<longleftrightarrow> bit a 0 \<noteq> bit b 0"
    by (simp add: bit_simps)
  ultimately show ?thesis
    by (simp add: mulX_def xor.commute xor.left_commute xor.assoc)
qed

lemma mulX_pow_zero: "(mulX ^^ n) 0 = 0"
  by (induction n) (simp_all add: mulX_zero)

lemma mulX_pow_xor: "(mulX ^^ n) (a XOR b) = (mulX ^^ n) a XOR (mulX ^^ n) b"
  by (induction n) (simp_all add: mulX_xor)

lemma xorSum_zero: "xorSum (\<lambda>i. 0) n = 0"
  by (induction n) simp_all

lemma xorSum_xor: "xorSum (\<lambda>i. f i XOR g i) n = xorSum f n XOR xorSum g n"
  by (induction n) (simp_all add: xor.commute xor.left_commute xor.assoc)

lemma xorSum_cong:
  assumes "\<And>i. i < n \<Longrightarrow> f i = g i"
  shows "xorSum f n = xorSum g n"
  using assms by (induction n) simp_all

lemma xorSum_linear:
  assumes "L 0 = 0" and "\<And>a b. L (a XOR b) = L a XOR L b"
  shows "L (xorSum f n) = xorSum (\<lambda>i. L (f i)) n"
  by (induction n) (simp_all add: assms)

lemma mulX_unitBit:
  assumes "i < 127"
  shows "mulX (unitBit i) = unitBit (Suc i)"
proof -
  have "drop_bit 1 (push_bit (127 - i) (1 :: word128)) = push_bit (126 - i) 1"
    using assms by (intro bit_eqI) (auto simp add: bit_simps)
  moreover have "\<not> bit (push_bit (127 - i) (1 :: word128)) 0"
    using assms by (simp add: bit_simps)
  ultimately show ?thesis
    by (simp add: mulX_def unitBit_def)
qed

lemma mulX_pow_unitBit:
  assumes "j < 128"
  shows "(mulX ^^ j) (unitBit 0) = unitBit j"
  using assms by (induction j) (simp_all add: mulX_unitBit)

lemma bit_xorSum_units:
  assumes "n \<le> 128"
  shows "bit (xorSum (\<lambda>i. if P i then unitBit i else 0) n) k \<longleftrightarrow> k < 128 \<and> 127 - k < n \<and> P (127 - k)"
  using assms
proof (induction n)
  case 0
  show ?case by simp
next
  case (Suc n)
  then have IH: "bit (xorSum (\<lambda>i. if P i then unitBit i else 0) n) k \<longleftrightarrow> k < 128 \<and> 127 - k < n \<and> P (127 - k)"
    by simp
  have n: "n < 128" using Suc.prems by simp
  have unit: "bit (unitBit n) k \<longleftrightarrow> k = 127 - n"
    using n by (auto simp add: unitBit_def bit_simps)
  show ?case
  proof (cases "k = 127 - n")
    case True
    with n have "127 - k = n" "k < 128" by simp_all
    then show ?thesis
      using IH unit True by (simp add: bit_simps)
  next
    case False
    with n have "k < 128 \<Longrightarrow> 127 - k < Suc n \<longleftrightarrow> 127 - k < n" by arith
    then show ?thesis
      using IH unit False by (auto simp add: bit_simps)
  qed
qed

lemma word_as_units: "xorSum (\<lambda>i. if bit x (127 - i) then unitBit i else 0) 128 = x"
proof (rule bit_eqI)
  fix k
  assume "possible_bit TYPE(word128) k"
  then have k: "k < 128" by (simp add: possible_bit_def)
  then have "127 - (127 - k) = k" by simp
  then show "bit (xorSum (\<lambda>i. if bit x (127 - i) then unitBit i else 0) 128) k = bit x k"
    using k by (auto simp add: bit_xorSum_units)
qed

lemma gfProduct_zero: "gfProduct x 0 = 0"
proof -
  have "gfProduct x 0 = xorSum (\<lambda>i. 0) 128"
    unfolding gfProduct_def by (intro xorSum_cong) (simp add: mulX_pow_zero)
  then show ?thesis by (simp add: xorSum_zero)
qed

lemma gfProduct_xor: "gfProduct x (a XOR b) = gfProduct x a XOR gfProduct x b"
proof -
  have "gfProduct x (a XOR b)
      = xorSum (\<lambda>i. (if bit x (127 - i) then (mulX ^^ i) a else 0) XOR
                    (if bit x (127 - i) then (mulX ^^ i) b else 0)) 128"
    unfolding gfProduct_def by (intro xorSum_cong) (simp add: mulX_pow_xor)
  then show ?thesis
    by (simp add: xorSum_xor gfProduct_def)
qed

lemma gfProduct_unitBit:
  assumes "j < 128"
  shows "gfProduct x (unitBit j) = (mulX ^^ j) x"
proof -
  have "(mulX ^^ i) (unitBit j) = (mulX ^^ j) (unitBit i)" if "i < 128" for i
  proof -
    have "(mulX ^^ i) (unitBit j) = (mulX ^^ i) ((mulX ^^ j) (unitBit 0))"
      by (simp only: mulX_pow_unitBit [OF assms])
    also have "\<dots> = (mulX ^^ j) ((mulX ^^ i) (unitBit 0))"
      by (simp only: funpow_add [symmetric, unfolded comp_def, THEN fun_cong] add.commute)
    also have "\<dots> = (mulX ^^ j) (unitBit i)"
      by (simp only: mulX_pow_unitBit [OF that])
    finally show ?thesis .
  qed
  then have "gfProduct x (unitBit j)
      = xorSum (\<lambda>i. (mulX ^^ j) (if bit x (127 - i) then unitBit i else 0)) 128"
    unfolding gfProduct_def by (intro xorSum_cong) (simp add: mulX_pow_zero)
  also have "\<dots> = (mulX ^^ j) (xorSum (\<lambda>i. if bit x (127 - i) then unitBit i else 0) 128)"
    by (rule xorSum_linear [symmetric]) (simp_all add: mulX_pow_zero mulX_pow_xor)
  finally show ?thesis
    by (simp add: word_as_units)
qed

lemma gfProduct_commute: "gfProduct x y = gfProduct y x"
proof -
  have "gfProduct y x = gfProduct y (xorSum (\<lambda>i. if bit x (127 - i) then unitBit i else 0) 128)"
    by (simp add: word_as_units)
  also have "\<dots> = xorSum (\<lambda>i. gfProduct y (if bit x (127 - i) then unitBit i else 0)) 128"
    by (rule xorSum_linear) (simp_all add: gfProduct_zero gfProduct_xor)
  also have "\<dots> = xorSum (\<lambda>i. if bit x (127 - i) then (mulX ^^ i) y else 0) 128"
    by (intro xorSum_cong) (simp add: gfProduct_zero gfProduct_unitBit)
  finally show ?thesis
    by (simp add: gfProduct_def)
qed

lemma fold_gfmulWordStep:
  "fold (gfmulWordStep x) [0..<n] (z, v)
   = (z XOR xorSum (\<lambda>i. if bit x (127 - i) then (mulX ^^ i) v else 0) n, (mulX ^^ n) v)"
  by (induction n) (simp_all add: gfmulWordStep_def xor.assoc)

subsection \<open>Lengths\<close>

lemma length_TTable_encrypt: "length (TTable_encrypt rk p) = 16"
  by (simp add: TTable_encrypt_def length_cryptBlock)

lemma length_xorBytes: "length (xorBytes a b) = min (length a) (length b)"
  by (simp add: xorBytes_def)

lemma xorBytes_append:
  assumes "length a = length c"
  shows "xorBytes (a @ b) (c @ d) = xorBytes a c @ xorBytes b d"
  using assms by (simp add: xorBytes_def)

lemma xorBytes_cancel:
  assumes "length a \<le> length k"
  shows "xorBytes (xorBytes a k) k = a"
  using assms
proof (induction a arbitrary: k)
  case Nil
  show ?case by (simp add: xorBytes_def)
next
  case (Cons x a)
  then obtain y k' where k: "k = y # k'" by (cases k) auto
  with Cons.prems have "length a \<le> length k'" by simp
  then have "xorBytes (xorBytes a k') k' = a" by (rule Cons.IH)
  then show ?case
    by (simp add: k xorBytes_def xor.assoc)
qed

lemma length_shiftRightCarry: "length (fst (shiftRightCarry c v)) = length v"
proof (induction v arbitrary: c)
  case Nil
  show ?case by simp
next
  case (Cons b v)
  obtain v' c' where sh: "shiftRightCarry (b AND 1) v = (v', c')"
    by (cases "shiftRightCarry (b AND 1) v")
  with Cons [of "b AND 1"] show ?case
    by (simp add: Let_def)
qed

lemma length_gfmulStep:
  assumes "length (fst zv) = n" and "length (snd zv) = n"
  shows "length (fst (gfmulStep x i zv)) = n \<and> length (snd (gfmulStep x i zv)) = n"
proof -
  obtain z v where zv: "zv = (z, v)" by (cases zv)
  obtain v' c where sh: "shiftRightCarry 0 v = (v', c)" by (cases "shiftRightCarry 0 v")
  have "length v' = length v"
    using length_shiftRightCarry [of 0 v] sh by simp
  then show ?thesis
    using assms by (simp add: gfmulStep_def zv sh Let_def length_xorBytes)
qed

lemma length_gfmul_fold:
  assumes "length (fst zv) = n" and "length (snd zv) = n"
  shows "length (fst (fold (gfmulStep x) is zv)) = n \<and> length (snd (fold (gfmulStep x) is zv)) = n"
  using assms
proof (induction "is" arbitrary: zv)
  case Nil
  then show ?case by simp
next
  case (Cons i "is")
  have "length (fst (gfmulStep x i zv)) = n \<and> length (snd (gfmulStep x i zv)) = n"
    using Cons.prems by (rule length_gfmulStep)
  then show ?case
    using Cons.IH [of "gfmulStep x i zv"] by simp
qed

lemma length_gfmul:
  assumes "16 \<le> length y"
  shows "length (gfmul x y) = 16"
  unfolding gfmul_def
  using length_gfmul_fold [of "(replicate 16 0, take 16 y)" 16 x "[0..<128]"] assms
  by simp

lemma length_unpack64: "length (unpack64 w) = 8"
  by (simp add: unpack64_def)

lemma length_ghash: "length (ghash st data) = 16"
proof -
  define h where "h = unpack64 (H st ! 0) @ unpack64 (H st ! 1)"
  have h: "16 \<le> length h" by (simp add: h_def length_unpack64)
  have "length (fold (\<lambda>i y. gfmul (xorBytes y (take 16 (drop (i * 16) data))) h) is y0) = 16"
    if "length y0 = 16" for "is" y0
    using that by (induction "is" arbitrary: y0) (simp_all add: length_gfmul [OF h])
  then show ?thesis
    unfolding ghash_def Let_def h_def [symmetric]
    by (simp add: length_gfmul [OF h])
qed

lemma length_expectedTag: "length (expectedTag st ct) = 16"
  by (simp add: expectedTag_def length_xorBytes length_ghash length_TTable_encrypt)

subsection \<open>The byte arrays of \<open>gfmul\<close> as words\<close>

lemma length_byteBits: "length (byteBits b) = 8"
  by (simp add: byteBits_def)

lemma length_bitsOf: "length (bitsOf xs) = 8 * length xs"
  by (induction xs) (simp_all add: bitsOf_def length_byteBits)

lemma bitsOf_Cons: "bitsOf (b # bs) = byteBits b @ bitsOf bs"
  by (simp add: bitsOf_def)

lemma bitsOf_nth:
  assumes "i < 8 * length xs"
  shows "bitsOf xs ! i = bit (xs ! (i div 8)) (7 - i mod 8)"
  using assms
proof (induction xs arbitrary: i)
  case Nil
  then show ?case by simp
next
  case (Cons b bs)
  show ?case
  proof (cases "i < 8")
    case True
    then show ?thesis
      by (simp add: bitsOf_Cons nth_append length_byteBits byteBits_def)
  next
    case False
    then obtain j where i: "i = j + 8"
      by (metis le_add_diff_inverse2 not_less)
    have "j < 8 * length bs"
      using Cons.prems i by simp
    then have "bitsOf bs ! j = bit (bs ! (j div 8)) (7 - j mod 8)"
      by (rule Cons.IH)
    moreover have "bitsOf (b # bs) ! i = bitsOf bs ! j"
      by (simp add: i bitsOf_Cons nth_append length_byteBits)
    moreover have "i div 8 = Suc (j div 8)" and "i mod 8 = j mod 8"
      by (simp_all add: i)
    then have "(b # bs) ! (i div 8) = bs ! (j div 8)" and "i mod 8 = j mod 8"
      by simp_all
    ultimately show ?thesis
      by simp
  qed
qed

lemma bit_toWord128:
  assumes "length xs = 16"
  shows "bit (toWord128 xs) k \<longleftrightarrow> k < 128 \<and> bitsOf xs ! (127 - k)"
proof -
  have len: "length (bitsOf xs) = 128"
    using assms by (simp add: length_bitsOf)
  show ?thesis
    unfolding toWord128_def
    using len by (auto simp add: bit_horner_sum_bit_word_iff rev_nth)
qed

lemma bit_toWord128_byte:
  assumes "length xs = 16" and "i < 128"
  shows "bit (toWord128 xs) (127 - i) \<longleftrightarrow> bit (xs ! (i div 8)) (7 - i mod 8)"
  using assms by (auto simp add: bit_toWord128 bitsOf_nth)

lemma toWord128_eqI:
  assumes "length xs = 16"
      and "\<And>i. i < 128 \<Longrightarrow> bit (xs ! (i div 8)) (7 - i mod 8) = bit W (127 - i)"
  shows "toWord128 xs = W"
proof (rule bit_eqI)
  fix k
  assume "possible_bit TYPE(word128) k"
  then have k: "k < 128" by (simp add: possible_bit_def)
  then have "127 - (127 - k) = k" and "127 - k < 128" by simp_all
  then show "bit (toWord128 xs) k = bit W k"
    using bit_toWord128_byte [OF assms(1), of "127 - k"] assms(2) [of "127 - k"] by simp
qed

lemma toWord128_inject:
  assumes "length x = 16" and "length y = 16" and "toWord128 x = toWord128 y"
  shows "x = y"
proof (rule nth_equalityI)
  show "length x = length y" using assms by simp
next
  fix j
  assume "j < length x"
  then have j: "j < 16" using assms by simp
  show "x ! j = y ! j"
  proof (rule bit_eqI)
    fix m
    assume "possible_bit TYPE(byte) m"
    then have m: "m < 8" by (simp add: possible_bit_def)
    define i where "i = 8 * j + (7 - m)"
    have "(7 - m) mod 8 = 7 - m" "(7 - m) div 8 = 0"
      by simp_all
    then have "i mod 8 = 7 - m" "i div 8 = j"
      unfolding i_def by simp_all
    then have i: "i < 128" "i div 8 = j" "7 - i mod 8 = m"
      using j m by (simp_all add: i_def)
    show "bit (x ! j) m = bit (y ! j) m"
      using bit_toWord128_byte [OF assms(1) i(1)] bit_toWord128_byte [OF assms(2) i(1)] assms(3)
      by (simp add: i)
  qed
qed

lemma toWord128_zero: "toWord128 (replicate 16 0) = 0"
  by (rule toWord128_eqI) simp_all

lemma toWord128_xorBytes:
  assumes "length a = 16" and "length b = 16"
  shows "toWord128 (xorBytes a b) = toWord128 a XOR toWord128 b"
proof (rule toWord128_eqI)
  show "length (xorBytes a b) = 16"
    using assms by (simp add: length_xorBytes)
next
  fix i :: nat
  assume i: "i < 128"
  then have "i div 8 < 16" by simp
  then have "xorBytes a b ! (i div 8) = a ! (i div 8) XOR b ! (i div 8)"
    using assms by (simp add: xorBytes_def)
  then show "bit (xorBytes a b ! (i div 8)) (7 - i mod 8) = bit (toWord128 a XOR toWord128 b) (127 - i)"
    using bit_toWord128_byte [OF assms(1) i] bit_toWord128_byte [OF assms(2) i]
    by (simp add: bit_simps)
qed

lemma bit_test:
  "(b :: byte) AND push_bit k 1 \<noteq> 0 \<longleftrightarrow> bit b k"
  by (simp add: bit_iff_and_push_bit_not_eq_0)

lemma toWord128_reduce:
  assumes "length v = 16"
  shows "toWord128 (v[0 := v ! 0 XOR c]) = toWord128 v XOR push_bit 120 (ucast c)"
proof (rule toWord128_eqI)
  show "length (v[0 := v ! 0 XOR c]) = 16"
    using assms by simp
next
  fix i :: nat
  assume i: "i < 128"
  show "bit (v[0 := v ! 0 XOR c] ! (i div 8)) (7 - i mod 8)
      = bit (toWord128 v XOR push_bit 120 (ucast c)) (127 - i)"
  proof (cases "i < 8")
    case True
    then have "127 - i - 120 = 7 - i" by simp
    then show ?thesis
      using True assms bit_toWord128_byte [OF assms i]
      by (auto simp add: bit_simps)
  next
    case False
    then have "0 < i div 8" and "\<not> 120 \<le> 127 - i"
      by (simp_all add: div_greater_zero_iff)
    then show ?thesis
      using assms bit_toWord128_byte [OF assms i]
      by (simp add: bit_simps)
  qed
qed

lemma upt8: "[0..<8] = [0, 1, 2, 3, 4, 5, 6, 7::nat]"
  by (simp add: upt_rec [of _ "numeral _"])

lemma byteBits_nth: "k < 8 \<Longrightarrow> byteBits b ! k = bit b (7 - k)"
  by (simp add: byteBits_def)

lemma byteBits_shift:
  "byteBits (drop_bit (Suc 0) b OR push_bit 7 c) = bit c 0 # butlast (byteBits b)"
proof (rule nth_equalityI)
  show "length (byteBits (drop_bit (Suc 0) b OR push_bit 7 c)) = length (bit c 0 # butlast (byteBits b))"
    by (simp add: length_byteBits)
next
  fix k
  assume "k < length (byteBits (drop_bit (Suc 0) b OR push_bit 7 c))"
  then have k: "k < 8" by (simp add: length_byteBits)
  show "byteBits (drop_bit (Suc 0) b OR push_bit 7 c) ! k = (bit c 0 # butlast (byteBits b)) ! k"
  proof (cases k)
    case 0
    then show ?thesis
      by (auto simp add: byteBits_nth bit_simps dest: bit_imp_le_length)
  next
    case (Suc j)
    with k have "j < 7" "Suc (7 - k) = 7 - j" by simp_all
    then show ?thesis
      using k Suc by (auto simp add: byteBits_nth bit_simps nth_butlast length_byteBits)
  qed
qed

lemma last_byteBits: "last (byteBits b) = bit b 0"
  by (simp add: byteBits_def upt8)

lemma bitsOf_shiftRightCarry:
  "bitsOf (fst (shiftRightCarry c v)) = take (8 * length v) (bit c 0 # bitsOf v)"
proof (induction v arbitrary: c)
  case Nil
  show ?case by (simp add: bitsOf_def)
next
  case (Cons b bs)
  obtain bs' c' where sh: "shiftRightCarry (b AND 1) bs = (bs', c')"
    by (cases "shiftRightCarry (b AND 1) bs")
  have IH: "bitsOf bs' = take (8 * length bs) (bit b 0 # bitsOf bs)"
    using Cons [of "b AND 1"] sh by (simp add: bit_simps)
  have split: "byteBits b = butlast (byteBits b) @ [bit b 0]"
    by (simp add: byteBits_def upt8)
  have "bitsOf (fst (shiftRightCarry c (b # bs)))
      = (bit c 0 # butlast (byteBits b)) @ take (8 * length bs) (bit b 0 # bitsOf bs)"
    by (simp add: sh Let_def bitsOf_Cons byteBits_shift IH)
  also have "\<dots> = take (8 * length (b # bs))
                       ((bit c 0 # butlast (byteBits b)) @ (bit b 0 # bitsOf bs))"
  proof -
    have "length (bit c 0 # butlast (byteBits b)) = 8"
      by (simp add: length_byteBits)
    then show ?thesis
      by (simp only: take_append) simp
  qed
  also have "(bit c 0 # butlast (byteBits b)) @ (bit b 0 # bitsOf bs) = bit c 0 # bitsOf (b # bs)"
    using split by (simp add: bitsOf_Cons)
  finally show ?case .
qed

lemma carry_shiftRightCarry:
  "snd (shiftRightCarry c v) = (if v = [] then c else last v AND 1)"
proof (induction v arbitrary: c)
  case Nil
  show ?case by simp
next
  case (Cons b bs)
  obtain bs' c' where sh: "shiftRightCarry (b AND 1) bs = (bs', c')"
    by (cases "shiftRightCarry (b AND 1) bs")
  with Cons [of "b AND 1"] show ?case
    by (simp add: Let_def and.assoc)
qed

lemma toWord128_shift:
  assumes "length v = 16"
  shows "toWord128 (fst (shiftRightCarry 0 v)) = drop_bit 1 (toWord128 v)"
proof (rule bit_eqI)
  fix k
  assume "possible_bit TYPE(word128) k"
  then have k: "k < 128" by (simp add: possible_bit_def)
  have len: "length (fst (shiftRightCarry 0 v)) = 16"
    using assms by (simp add: length_shiftRightCarry)
  have lenb: "length (bitsOf v) = 128"
    using assms by (simp add: length_bitsOf)
  have "bit (toWord128 (fst (shiftRightCarry 0 v))) k
      \<longleftrightarrow> take 128 (False # bitsOf v) ! (127 - k)"
    using k assms by (simp add: bit_toWord128 [OF len] bitsOf_shiftRightCarry)
  also have "\<dots> \<longleftrightarrow> k < 127 \<and> bitsOf v ! (126 - k)"
    using k by (cases "k = 127") (simp_all add: nth_Cons')
  also have "\<dots> \<longleftrightarrow> bit (drop_bit 1 (toWord128 v)) k"
    using k by (auto simp add: bit_simps bit_toWord128 [OF assms])
  finally show "bit (toWord128 (fst (shiftRightCarry 0 v))) k = bit (drop_bit 1 (toWord128 v)) k" .
qed

lemma toWord128_carry:
  assumes "length v = 16"
  shows "snd (shiftRightCarry 0 v) \<noteq> 0 \<longleftrightarrow> bit (toWord128 v) 0"
proof -
  have "v \<noteq> []" using assms by auto
  then have "snd (shiftRightCarry 0 v) = v ! 15 AND 1"
    using assms by (simp add: carry_shiftRightCarry last_conv_nth)
  moreover have "v ! 15 AND 1 \<noteq> 0 \<longleftrightarrow> bit (v ! 15) 0"
    using bit_test [of "v ! 15" 0] by simp
  moreover have "bit (toWord128 v) 0 \<longleftrightarrow> bit (v ! 15) 0"
    using bit_toWord128_byte [OF assms, of 127] by simp
  ultimately show ?thesis by simp
qed

lemma gfmulStep_refines:
  assumes x: "length x = 16" and z: "length z = 16" and v: "length v = 16" and i: "i < 128"
  shows "case gfmulStep x i (z, v) of (z', v') \<Rightarrow>
           length z' = 16 \<and> length v' = 16 \<and>
           (toWord128 z', toWord128 v') = gfmulWordStep (toWord128 x) i (toWord128 z, toWord128 v)"
proof -
  obtain sv c where sh: "shiftRightCarry 0 v = (sv, c)"
    by (cases "shiftRightCarry 0 v")
  have lensv: "length sv = 16"
    using length_shiftRightCarry [of 0 v] sh v by simp
  have sv: "toWord128 sv = drop_bit 1 (toWord128 v)"
    using toWord128_shift [OF v] sh by simp
  have c: "c \<noteq> 0 \<longleftrightarrow> bit (toWord128 v) 0"
    using toWord128_carry [OF v] sh by simp
  have test: "x ! (i div 8) AND 2 ^ (7 - i mod 8) \<noteq> 0 \<longleftrightarrow> bit (toWord128 x) (127 - i)"
    using bit_toWord128_byte [OF x i] bit_test [of "x ! (i div 8)" "7 - i mod 8"] by simp
  have red: "toWord128 (sv[0 := sv ! 0 XOR 0xE1]) = toWord128 sv XOR push_bit 120 0xE1"
    using toWord128_reduce [OF lensv, of "0xE1"] by simp
  show ?thesis
    using z v lensv
    by (simp add: gfmulStep_def gfmulWordStep_def sh Let_def test c sv red mulX_def
        toWord128_xorBytes length_xorBytes)
qed

lemma gfmul_fold_refines:
  assumes x: "length x = 16" and "length z = 16" and "length v = 16" and "\<forall>i \<in> set is. i < 128"
  shows "case fold (gfmulStep x) is (z, v) of (z', v') \<Rightarrow>
           length z' = 16 \<and> length v' = 16 \<and>
           (toWord128 z', toWord128 v')
             = fold (gfmulWordStep (toWord128 x)) is (toWord128 z, toWord128 v)"
  using assms(2-4)
proof (induction "is" arbitrary: z v)
  case Nil
  then show ?case by simp
next
  case (Cons i "is")
  obtain z1 v1 where step: "gfmulStep x i (z, v) = (z1, v1)"
    by (cases "gfmulStep x i (z, v)")
  have i: "i < 128" using Cons.prems(3) by simp
  have one: "length z1 = 16 \<and> length v1 = 16 \<and>
             (toWord128 z1, toWord128 v1) = gfmulWordStep (toWord128 x) i (toWord128 z, toWord128 v)"
    using gfmulStep_refines [OF x Cons.prems(1,2) i] step by simp
  then have "case fold (gfmulStep x) is (z1, v1) of (z', v') \<Rightarrow>
           length z' = 16 \<and> length v' = 16 \<and>
           (toWord128 z', toWord128 v')
             = fold (gfmulWordStep (toWord128 x)) is (toWord128 z1, toWord128 v1)"
    using Cons.prems(3) by (intro Cons.IH) simp_all
  then show ?case
    using one by (simp add: step)
qed

lemma toWord128_gfmul:
  assumes "length x = 16" and "length y = 16"
  shows "toWord128 (gfmul x y) = gfProduct (toWord128 x) (toWord128 y)"
proof -
  obtain z' v' where f: "fold (gfmulStep x) [0..<128] (replicate 16 0, y) = (z', v')"
    by (cases "fold (gfmulStep x) [0..<128] (replicate 16 0, y)")
  have "(toWord128 z', toWord128 v')
      = fold (gfmulWordStep (toWord128 x)) [0..<128] (toWord128 (replicate 16 0), toWord128 y)"
    using gfmul_fold_refines [OF assms(1) _ assms(2), of "replicate 16 0" "[0..<128]"] f by simp
  then have "toWord128 z' = gfProduct (toWord128 x) (toWord128 y)"
    by (simp add: toWord128_zero fold_gfmulWordStep gfProduct_def)
  then show ?thesis
    using assms(2) f by (simp add: gfmul_def)
qed

text \<open>
  C7. For all 16-byte operands \<open>x\<close> and \<open>y\<close>, \<open>gfmul(x, y) = gfmul(y, x)\<close>: the
  bit-serial multiplication with the reduction constant \<open>0xE1\<close> in the top byte is
  commutative.
\<close>

theorem gfmul_commutative:
  assumes "length x = 16" and "length y = 16"
  shows "gfmul x y = gfmul y x"
proof (rule toWord128_inject)
  show "length (gfmul x y) = 16" "length (gfmul y x) = 16"
    using assms by (simp_all add: length_gfmul)
  show "toWord128 (gfmul x y) = toWord128 (gfmul y x)"
    using assms by (simp add: toWord128_gfmul gfProduct_commute [of "toWord128 x"])
qed

theorem gfmul_commutative_witness:
  "length test_key = 16 \<and> length expected_ciphertext = 16 \<and>
   gfmul test_key expected_ciphertext = gfmul expected_ciphertext test_key"
proof -
  have x: "length test_key = 16" and y: "length expected_ciphertext = 16"
    by (simp_all add: test_key_def expected_ciphertext_def)
  show ?thesis
    using x y gfmul_commutative [OF x y] by simp
qed

lemma gfmul_zero_left:
  assumes "length y = 16"
  shows "gfmul (replicate 16 0) y = replicate 16 0"
proof (rule toWord128_inject)
  show "length (gfmul (replicate 16 0) y) = 16"
    using assms by (simp add: length_gfmul)
  have "gfProduct 0 (toWord128 y) = xorSum (\<lambda>i. 0) 128"
    unfolding gfProduct_def by (intro xorSum_cong) simp
  then show "toWord128 (gfmul (replicate 16 0) y) = toWord128 (replicate 16 0)"
    using assms by (simp add: toWord128_gfmul toWord128_zero xorSum_zero)
qed simp

section \<open>Counter mode and the authenticated operations\<close>

lemma length_keystream: "length (keystream rk j0 n) = n * 16"
  unfolding keystream_def
  by (rule length_concat_const) (simp add: length_TTable_encrypt)

lemma length_ctrStream: "length (ctrStream rk j0 len) = len"
  by (simp add: ctrStream_def length_keystream length_TTable_encrypt)

lemma keystream_Suc:
  "keystream rk j0 (Suc n) = keystream rk j0 n @ TTable_encrypt rk ((incrementCounter ^^ Suc n) j0)"
  by (simp add: keystream_def)

lemma ctrFullBlocks_eq:
  assumes "n * 16 \<le> length inp" and "n * 16 \<le> length out"
  shows "ctrFullBlocks rk inp n (j0, out)
       = ((incrementCounter ^^ n) j0,
          xorBytes (take (n * 16) inp) (keystream rk j0 n) @ drop (n * 16) out)"
  using assms
proof (induction n)
  case 0
  show ?case by (simp add: ctrFullBlocks_def keystream_def xorBytes_def)
next
  case (Suc n)
  let ?c = "(incrementCounter ^^ n) j0"
  let ?ks = "TTable_encrypt rk (incrementCounter ?c)"
  let ?A = "xorBytes (take (n * 16) inp) (keystream rk j0 n)"
  let ?B = "xorBytes (take 16 (drop (n * 16) inp)) ?ks"
  have IH: "ctrFullBlocks rk inp n (j0, out) = (?c, ?A @ drop (n * 16) out)"
    using Suc.prems by (intro Suc.IH) simp_all
  have lenA: "length ?A = n * 16"
    using Suc.prems by (simp add: length_xorBytes length_keystream)
  have lenB: "length ?B = 16"
    using Suc.prems by (simp add: length_xorBytes length_TTable_encrypt)
  have step: "ctrFullBlocks rk inp (Suc n) (j0, out)
      = (incrementCounter ?c, storeAt (?A @ drop (n * 16) out) (n * 16) ?B)"
    using IH by (simp add: ctrFullBlocks_def Let_def)
  have store: "storeAt (?A @ drop (n * 16) out) (n * 16) ?B = (?A @ ?B) @ drop (Suc n * 16) out"
    using lenA lenB by (simp add: storeAt_def add.commute)
  have "take (Suc n * 16) inp = take (n * 16) inp @ take 16 (drop (n * 16) inp)"
    by (simp add: take_add [symmetric] add.commute)
  then have "xorBytes (take (Suc n * 16) inp) (keystream rk j0 (Suc n))
      = xorBytes (take (n * 16) inp @ take 16 (drop (n * 16) inp)) (keystream rk j0 n @ ?ks)"
    by (simp add: keystream_Suc)
  also have "\<dots> = ?A @ ?B"
    using Suc.prems by (intro xorBytes_append) (simp add: length_keystream)
  finally have AB: "xorBytes (take (Suc n * 16) inp) (keystream rk j0 (Suc n)) = ?A @ ?B" .
  show ?case
    unfolding step store AB by simp
qed

lemma ctrCrypt_eq:
  assumes "length inp \<le> length out"
  shows "ctrCrypt rk j0 inp out = xorBytes inp (ctrStream rk j0 (length inp)) @ drop (length inp) out"
proof -
  define f r where "f = length inp div 16" and "r = length inp mod 16"
  have len: "length inp = f * 16 + r" by (simp add: f_def r_def)
  have f1: "f * 16 \<le> length inp" and f2: "f * 16 \<le> length out"
    using assms len by simp_all
  let ?c = "(incrementCounter ^^ f) j0"
  let ?A = "xorBytes (take (f * 16) inp) (keystream rk j0 f)"
  let ?ks = "TTable_encrypt rk (incrementCounter ?c)"
  have full: "ctrFullBlocks rk inp f (j0, out) = (?c, ?A @ drop (f * 16) out)"
    by (rule ctrFullBlocks_eq [OF f1 f2])
  have lenA: "length ?A = f * 16"
    using f1 by (simp add: length_xorBytes length_keystream)
  have split: "xorBytes inp (ctrStream rk j0 (length inp))
             = ?A @ xorBytes (drop (f * 16) inp) (take r ?ks)"
  proof -
    have "inp = take (f * 16) inp @ drop (f * 16) inp" by simp
    then have "xorBytes inp (ctrStream rk j0 (length inp))
        = xorBytes (take (f * 16) inp @ drop (f * 16) inp) (keystream rk j0 f @ take r ?ks)"
      by (simp add: ctrStream_def f_def r_def)
    also have "\<dots> = ?A @ xorBytes (drop (f * 16) inp) (take r ?ks)"
      using f1 by (intro xorBytes_append) (simp add: length_keystream)
    finally show ?thesis .
  qed
  show ?thesis
  proof (cases "r > 0")
    case True
    have lenB: "length (xorBytes (drop (f * 16) inp) (take r ?ks)) = r"
      using len by (simp add: length_xorBytes length_TTable_encrypt r_def)
    have "ctrCrypt rk j0 inp out
        = storeAt (?A @ drop (f * 16) out) (f * 16) (xorBytes (drop (f * 16) inp) (take r ?ks))"
      using True full by (simp add: ctrCrypt_def Let_def f_def [symmetric] r_def [symmetric])
    also have "\<dots> = ?A @ xorBytes (drop (f * 16) inp) (take r ?ks) @ drop (length inp) out"
      using lenA lenB len by (simp add: storeAt_def add.commute)
    finally show ?thesis
      by (simp add: split)
  next
    case False
    then have r0: "r = 0" by simp
    have "ctrCrypt rk j0 inp out = ?A @ drop (f * 16) out"
      using r0 full by (simp add: ctrCrypt_def Let_def f_def [symmetric] r_def [symmetric])
    moreover have "xorBytes (drop (f * 16) inp) (take r ?ks) = []"
      using r0 by (simp add: xorBytes_def)
    moreover have "drop (length inp) out = drop (f * 16) out"
      using len r0 by simp
    ultimately show ?thesis
      unfolding split by simp
  qed
qed

lemma tagMismatch_iff:
  assumes "n \<le> length e" and "n \<le> length t"
  shows "tagMismatch e t n \<longleftrightarrow> take n e \<noteq> take n t"
proof -
  have "take n e = take n t \<longleftrightarrow> (\<forall>i<n. e ! i = t ! i)"
    using assms by (auto simp add: list_eq_iff_nth_eq)
  then show ?thesis
    by (auto simp add: tagMismatch_def list_ex_iff)
qed

lemma decrypt_accepts:
  assumes iv: "iv st \<noteq> []"
      and tag: "take (min tagLen 16) tag = take (min tagLen 16) (expectedTag st ct)"
      and len: "min tagLen 16 \<le> length tag"
      and room: "length ct \<le> length ptbuf"
  shows "SM4_GCM_decrypt st ct tag tagLen ptbuf
       = (st, True, xorBytes ct (ctrStream (sm4 st) (initialCounter st) (length ct))
                    @ drop (length ct) ptbuf)"
proof -
  have "\<not> tagMismatch (expectedTag st ct) tag (min tagLen 16)"
    using tag len by (simp add: tagMismatch_iff length_expectedTag)
  then show ?thesis
    using iv by (simp add: SM4_GCM_decrypt_def Let_def ctrCrypt_eq [OF room])
qed

lemma encrypt_result:
  assumes iv: "iv st \<noteq> []"
      and room: "length P \<le> length ctbuf"
      and troom: "min tagLen 16 \<le> length tagbuf"
  defines "C \<equiv> xorBytes P (ctrStream (sm4 st) (initialCounter st) (length P))"
  shows "SM4_GCM_encrypt st P ctbuf tagbuf tagLen
       = (st, True, C @ drop (length P) ctbuf,
          take (min tagLen 16) (expectedTag st C) @ drop (min tagLen 16) tagbuf)"
proof -
  have lenC: "length C = length P"
    by (simp add: C_def length_xorBytes length_ctrStream)
  have ct: "ctrCrypt (sm4 st) (initialCounter st) P ctbuf = C @ drop (length P) ctbuf"
    unfolding C_def by (rule ctrCrypt_eq [OF room])
  have "storeAt tagbuf 0 (take (min tagLen 16) (expectedTag st C))
      = take (min tagLen 16) (expectedTag st C) @ drop (min tagLen 16) tagbuf"
    by (simp add: storeAt_def length_expectedTag)
  then show ?thesis
    using iv lenC by (simp add: SM4_GCM_encrypt_def Let_def ct expectedTag_def)
qed

lemma roundtrip_on_session:
  assumes iv: "iv st \<noteq> []"
      and "tagLen \<le> 16"
      and room: "length P \<le> length ctbuf"
      and troom: "tagLen \<le> length tagbuf"
      and proom: "length P \<le> length ptbuf"
  shows "case SM4_GCM_encrypt st P ctbuf tagbuf tagLen of (st', ok, C, T) \<Rightarrow>
           ok \<and> st' = st \<and>
           length C = length ctbuf \<and> drop (length P) C = drop (length P) ctbuf \<and>
           length T = length tagbuf \<and> drop tagLen T = drop tagLen tagbuf \<and>
           SM4_GCM_decrypt st' (take (length P) C) T tagLen ptbuf
             = (st, True, P @ drop (length P) ptbuf)"
proof -
  define S where "S = ctrStream (sm4 st) (initialCounter st) (length P)"
  define C where "C = xorBytes P S"
  define T where "T = take tagLen (expectedTag st C) @ drop tagLen tagbuf"
  have n: "min tagLen 16 = tagLen"
    using assms(2) by simp
  have lenS: "length S = length P"
    by (simp add: S_def length_ctrStream)
  have lenC: "length C = length P"
    by (simp add: C_def lenS length_xorBytes)
  have enc: "SM4_GCM_encrypt st P ctbuf tagbuf tagLen = (st, True, C @ drop (length P) ctbuf, T)"
    using encrypt_result [OF iv room, of tagLen tagbuf] troom
    by (simp add: n C_def S_def T_def)
  have "take (min tagLen 16) T = take (min tagLen 16) (expectedTag st C)"
    using assms(2) by (simp add: n T_def length_expectedTag)
  moreover have "min tagLen 16 \<le> length T"
    using troom assms(2) by (simp add: n T_def length_expectedTag)
  moreover have "length C \<le> length ptbuf"
    using proom lenC by simp
  ultimately have "SM4_GCM_decrypt st C T tagLen ptbuf
      = (st, True, xorBytes C (ctrStream (sm4 st) (initialCounter st) (length C))
                   @ drop (length C) ptbuf)"
    by (rule decrypt_accepts [OF iv])
  also have "xorBytes C (ctrStream (sm4 st) (initialCounter st) (length C)) = P"
    using xorBytes_cancel [of P S] lenS
    by (simp add: lenC S_def [symmetric] C_def [symmetric])
  finally have dec: "SM4_GCM_decrypt st C T tagLen ptbuf = (st, True, P @ drop (length P) ptbuf)"
    by (simp add: lenC)
  have "length T = length tagbuf" and "drop tagLen T = drop tagLen tagbuf"
    using troom assms(2) by (simp_all add: T_def length_expectedTag)
  then show ?thesis
    using room lenC dec by (simp add: enc)
qed

text \<open>
  C4. For every key, every nonempty IV (of 12 bytes or of any other length), every AAD,
  every plaintext \<open>P\<close> of any length and every \<open>tagLen \<le> 16\<close>: after \<open>setKey\<close>,
  \<open>setIV\<close> and \<open>setAAD\<close>, \<open>encrypt\<close> returns \<open>true\<close>, stores exactly
  \<open>length P\<close> ciphertext bytes and \<open>tagLen\<close> tag bytes (the rest of both buffers is
  untouched) and leaves the object as it was; \<open>decrypt\<close> of these ciphertext bytes with
  this tag on the same object returns \<open>true\<close> and stores exactly \<open>P\<close>.
\<close>

theorem gcm_roundtrip:
  assumes "length key = 16" and "iv_data \<noteq> []" and "tagLen \<le> 16"
      and "length P \<le> length ctbuf" and "tagLen \<le> length tagbuf"
      and "length P \<le> length ptbuf"
  shows "let st = SM4_GCM_setAAD aad_data (SM4_GCM_setIV iv_data (SM4_GCM_setKey key st0))
         in case SM4_GCM_encrypt st P ctbuf tagbuf tagLen of (st', ok, C, T) \<Rightarrow>
              ok \<and> st' = st \<and>
              length C = length ctbuf \<and> drop (length P) C = drop (length P) ctbuf \<and>
              length T = length tagbuf \<and> drop tagLen T = drop tagLen tagbuf \<and>
              SM4_GCM_decrypt st' (take (length P) C) T tagLen ptbuf
                = (st, True, P @ drop (length P) ptbuf)"
proof -
  have "iv (SM4_GCM_setAAD aad_data (SM4_GCM_setIV iv_data (SM4_GCM_setKey key st0))) \<noteq> []"
    using assms(2) by (simp add: SM4_GCM_setAAD_def SM4_GCM_setIV_def)
  then show ?thesis
    unfolding Let_def using assms(3-6) by (rule roundtrip_on_session)
qed

theorem gcm_roundtrip_witness:
  "length test_key = 16 \<and> replicate 13 (5 :: byte) \<noteq> [] \<and> (16 :: nat) \<le> 16 \<and>
   length (test_plaintext @ [1]) \<le> length (replicate 32 (0 :: byte)) \<and>
   16 \<le> length (replicate 16 (0 :: byte)) \<and>
   length (test_plaintext @ [1]) \<le> length (replicate 32 (0 :: byte)) \<and>
   (let st = SM4_GCM_setAAD [0xAA] (SM4_GCM_setIV (replicate 13 5) (SM4_GCM_setKey test_key freshSession))
    in case SM4_GCM_encrypt st (test_plaintext @ [1]) (replicate 32 0) (replicate 16 0) 16 of
       (st', ok, C, T) \<Rightarrow>
         ok \<and> st' = st \<and>
         length C = length (replicate 32 (0 :: byte)) \<and>
         drop (length (test_plaintext @ [1])) C
           = drop (length (test_plaintext @ [1])) (replicate 32 0) \<and>
         length T = length (replicate 16 (0 :: byte)) \<and>
         drop 16 T = drop 16 (replicate 16 0) \<and>
         SM4_GCM_decrypt st' (take (length (test_plaintext @ [1])) C) T 16 (replicate 32 0)
           = (st, True, (test_plaintext @ [1]) @ drop (length (test_plaintext @ [1])) (replicate 32 0)))"
proof -
  have h1: "length test_key = 16"
    by (simp add: test_key_def)
  have h2: "replicate 13 (5 :: byte) \<noteq> []"
    by simp
  have h3: "(16 :: nat) \<le> 16"
    by simp
  have h4: "length (test_plaintext @ [1]) \<le> length (replicate 32 (0 :: byte))"
    by (simp add: test_plaintext_def)
  have h5: "16 \<le> length (replicate 16 (0 :: byte))"
    by simp
  show ?thesis
    using h1 h2 h3 h4 h5
      gcm_roundtrip [OF h1 h2 h3 h4 h5 h4, of "[0xAA]" freshSession]
    by blast
qed

subsection \<open>A rejected tag on a concrete session\<close>

lemma unpack64_zero: "unpack64 0 = replicate 8 0"
  by (simp add: unpack64_def upt_rec [of _ "numeral _"] numeral_eq_Suc)

lemma ghash_zero_block: "ghash st (replicate 16 0) = replicate 16 0"
proof -
  define h where "h = unpack64 (H st ! 0) @ unpack64 (H st ! 1)"
  have h: "length h = 16" by (simp add: h_def length_unpack64)
  have "xorBytes (replicate 16 0) (replicate 16 0) = replicate 16 0"
    by (simp add: xorBytes_def)
  then have "gfmul (xorBytes (replicate 16 0) (replicate 16 0)) h = replicate 16 0"
    using gfmul_zero_left [OF h] by simp
  then show ?thesis
    unfolding ghash_def Let_def h_def [symmetric] by simp
qed

lemma xorBytes_zero_left:
  assumes "length b = n"
  shows "xorBytes (replicate n 0) b = b"
  using assms
  by (intro nth_equalityI) (simp_all add: xorBytes_def)

lemma testSession_fields:
  "sm4 testSession = test_roundKeys" "iv testSession = replicate 12 0" "aad testSession = []"
  by (simp_all add: testSession_def SM4_GCM_setIV_def SM4_GCM_setKey_def generateSubkey_def
      Let_def TTable_setKey_def test_roundKeys_eq freshSession_def constructed_def)

lemma testSession_tagMask:
  "cryptBlock AESNI_roundFunction test_roundKeys encOrder
     [0, 0, 0, 0, 0, 0, 0, 0, 0, 0, 0, 0, 0, 0, 0, 1]
   = [0x4e, 0x59, 0x5b, 0xf0, 0x3f, 0x23, 0xbd, 0x10, 0x32, 0x9b, 0xaf, 0x56, 0x98, 0xe8, 0x98, 0xec]"
  unfolding test_roundKeys_def
  by (simp add: eval_defs upt_rec [of _ "numeral _"])

lemma testSession_expectedTag:
  "expectedTag testSession []
   = [0x4e, 0x59, 0x5b, 0xf0, 0x3f, 0x23, 0xbd, 0x10, 0x32, 0x9b, 0xaf, 0x56, 0x98, 0xe8, 0x98, 0xec]"
proof -
  have "authData testSession [] = replicate 16 0"
    by (simp add: authData_def testSession_fields unpack64_zero replicate_add [symmetric])
  then have "ghash testSession (authData testSession []) = replicate 16 0"
    by (simp only: ghash_zero_block)
  moreover have "initialCounter testSession = [0, 0, 0, 0, 0, 0, 0, 0, 0, 0, 0, 0, 0, 0, 0, 1]"
    by (simp add: initialCounter_def testSession_fields numeral_eq_Suc)
  ultimately show ?thesis
    by (simp add: expectedTag_def testSession_fields TTable_encrypt_def TTable_feistelFunction_eq'
        testSession_tagMask xorBytes_zero_left [of _ 16, simplified])
qed

text \<open>
  C5. Whenever \<open>decrypt\<close> is called with an IV set and the first \<open>min(tagLen, 16)\<close>
  bytes of the supplied tag differ from those of the recomputed expected tag, it returns
  \<open>false\<close> and the plaintext buffer is exactly as it was before the call: the
  comparison precedes the counter-mode loops, which do not run.
\<close>

theorem tag_mismatch_rejected:
  assumes "iv st \<noteq> []" and "min tagLen 16 \<le> length tag"
      and "take (min tagLen 16) tag \<noteq> take (min tagLen 16) (expectedTag st ct)"
  shows "SM4_GCM_decrypt st ct tag tagLen ptbuf = (st, False, ptbuf)"
proof -
  have "tagMismatch (expectedTag st ct) tag (min tagLen 16)"
    using assms(2,3) by (auto simp add: tagMismatch_iff length_expectedTag)
  then show ?thesis
    using assms(1) by (simp add: SM4_GCM_decrypt_def Let_def)
qed

theorem tag_mismatch_rejected_witness:
  "iv testSession \<noteq> [] \<and> min 16 16 \<le> length (replicate 16 (0 :: byte)) \<and>
   take (min 16 16) (replicate 16 0) \<noteq> take (min 16 16) (expectedTag testSession []) \<and>
   SM4_GCM_decrypt testSession [] (replicate 16 0) 16 [1, 2, 3] = (testSession, False, [1, 2, 3])"
proof -
  have h1: "iv testSession \<noteq> []"
    by (simp add: testSession_fields)
  have h2: "min 16 16 \<le> length (replicate 16 (0 :: byte))"
    by simp
  have h3: "take (min 16 16) (replicate 16 0) \<noteq> take (min 16 16) (expectedTag testSession [])"
  proof
    assume "take (min 16 16) (replicate 16 0) = take (min 16 16) (expectedTag testSession [])"
    then have "take (min 16 16) (replicate 16 0) ! 0 = take (min 16 16) (expectedTag testSession []) ! 0"
      by (rule arg_cong)
    then show False
      by (simp add: testSession_expectedTag)
  qed
  show ?thesis
    using h1 h2 h3 tag_mismatch_rejected [OF h1 h2 h3, of "[1, 2, 3]"] by blast
qed

text \<open>
  C10. If \<open>decrypt\<close> is called with \<open>tagLen = 0\<close> while an IV is set, the comparison
  loop runs zero times: for every supplied tag, \<open>decrypt\<close> returns \<open>true\<close> and the
  plaintext buffer holds the result of the counter-mode loops on the ciphertext.
\<close>

theorem zero_tag_length_accepts:
  assumes "iv st \<noteq> []"
  shows "SM4_GCM_decrypt st ct tag 0 ptbuf
       = (st, True, ctrCrypt (sm4 st) (initialCounter st) ct ptbuf)"
  using assms by (simp add: SM4_GCM_decrypt_def Let_def tagMismatch_def)

theorem zero_tag_length_accepts_witness:
  "iv testSession \<noteq> [] \<and>
   SM4_GCM_decrypt testSession [0x10, 0x20] [7] 0 [0, 0]
     = (testSession, True, ctrCrypt (sm4 testSession) (initialCounter testSession) [0x10, 0x20] [0, 0])"
proof -
  have h1: "iv testSession \<noteq> []"
    by (simp add: testSession_fields)
  show ?thesis
    using h1 zero_tag_length_accepts [OF h1, of "[0x10, 0x20]" "[7]" "[0, 0]"] by blast
qed

text \<open>
  C9. After \<open>setIV\<close> with a nonzero length followed by \<open>clear()\<close>, the IV and AAD
  buffers hold zeros but keep their lengths, the round keys and \<open>H\<close> are zero, and a
  following \<open>encrypt\<close> passes the emptiness check: it returns \<open>true\<close>, and the
  ciphertext buffer is the result of the counter-mode loops under the zeroed round keys
  from the initial counter of the all-zero IV.
\<close>

theorem clear_keeps_lengths:
  assumes "iv_data \<noteq> []"
  shows "let st = SM4_GCM_clear (SM4_GCM_setIV iv_data st0)
         in iv st = replicate (length iv_data) 0 \<and>
            aad st = replicate (length (aad st0)) 0 \<and>
            sm4 st = replicate (length (sm4 st0)) 0 \<and>
            H st = replicate (length (H st0)) 0 \<and>
            fst (snd (SM4_GCM_encrypt st P ctbuf tagbuf tagLen)) \<and>
            fst (snd (snd (SM4_GCM_encrypt st P ctbuf tagbuf tagLen)))
              = ctrCrypt (replicate (length (sm4 st0)) 0) (initialCounter st) P ctbuf"
  using assms
  by (simp add: Let_def SM4_GCM_clear_def SM4_GCM_setIV_def TTable_clear_def SM4_GCM_encrypt_def
      map_replicate_const)

theorem clear_keeps_lengths_witness:
  "[1, 2, 3 :: byte] \<noteq> [] \<and>
   (let st = SM4_GCM_clear (SM4_GCM_setIV [1, 2, 3] freshSession)
    in iv st = replicate (length [1, 2, 3 :: byte]) 0 \<and>
       aad st = replicate (length (aad freshSession)) 0 \<and>
       sm4 st = replicate (length (sm4 freshSession)) 0 \<and>
       H st = replicate (length (H freshSession)) 0 \<and>
       fst (snd (SM4_GCM_encrypt st [9] [0] [] 0)) \<and>
       fst (snd (snd (SM4_GCM_encrypt st [9] [0] [] 0)))
         = ctrCrypt (replicate (length (sm4 freshSession)) 0) (initialCounter st) [9] [0])"
proof -
  have h1: "[1, 2, 3 :: byte] \<noteq> []"
    by simp
  show ?thesis
    using h1 clear_keeps_lengths [OF h1, of freshSession "[9]" "[0]" "[]" 0] by blast
qed



end
